theory Spec2Isabelle
  imports Complex_Main "HOL-Library.Multiset" "HOL-Library.Log_Nat"
begin

section \<open>Errors and panics\<close>

text \<open>
  A Go \<^verbatim>\<open>error\<close> value is either \<^verbatim>\<open>nil\<close> (\<open>None\<close>), the sentinel
  \<^verbatim>\<open>sliceio.EOF\<close> or some other error, whose payload is left abstract.
  A panic is a value of its own: a function that may panic returns \<open>panic + 'a\<close>.
\<close>

datatype 'e error = EOF | Other 'e

datatype panic =
    TypecheckPanic string
  | ExpectedOneDep nat
  | IndexOutOfRange
  | SliceBoundsOutOfRange
  | DivideByZero
  | MakeLenOutOfRange

section \<open>The reshuffle operator\<close>

text \<open>
  \<^verbatim>\<open>type reshuffleSlice struct { name Name; Slice }\<close>.
  The upstream slice is embedded, so every method that \<^verbatim>\<open>reshuffleSlice\<close> does not
  define itself (among them the schema of the slice) is the upstream's method.
\<close>

record ('n, 's) reshuffleSlice =
  name :: 'n
  Slice :: 's

text \<open>
  \<^verbatim>\<open>Dep{r.Slice, true, nil, false}\<close>: the literal is positional. The four fields are
  the slice depended on, the shuffle flag, the (optional) partitioner and the
  expand flag.
\<close>

record ('s, 'p) Dep =
  dep_Slice :: 's
  dep_Shuffle :: bool
  dep_Partitioner :: "'p option"
  dep_Expand :: bool

text \<open>\<^verbatim>\<open>slicefunc.Nil\<close> is the absent combiner.\<close>

datatype 'f Func = Func_Nil | Fn 'f

text \<open>
  \<^verbatim>\<open>Reshuffle\<close>. The combinability check \<^verbatim>\<open>canMakeCombiningFrame\<close> and the name
  generator \<^verbatim>\<open>makeName\<close> are declared outside the files at hand and are taken as
  parameters; the check returns \<open>None\<close> for \<^verbatim>\<open>nil\<close> and the error's message
  otherwise. \<^verbatim>\<open>typecheck.Panic\<close> panics with that message.
\<close>

definition Reshuffle ::
  "('s \<Rightarrow> string option) \<Rightarrow> (string \<Rightarrow> 'n) \<Rightarrow> 's \<Rightarrow> panic + ('n, 's) reshuffleSlice" where
  "Reshuffle canMakeCombiningFrame makeName slice =
     (case canMakeCombiningFrame slice of
        Some err \<Rightarrow> Inl (TypecheckPanic err)
      | None \<Rightarrow> Inr \<lparr>name = makeName ''reshuffle'', Slice = slice\<rparr>)"

definition reshuffleSlice_Name :: "('n, 's) reshuffleSlice \<Rightarrow> 'n" where
  "reshuffleSlice_Name r = name r"

definition reshuffleSlice_NumDep :: "('n, 's) reshuffleSlice \<Rightarrow> int" where
  "reshuffleSlice_NumDep r = 1"

definition reshuffleSlice_Dep :: "('n, 's) reshuffleSlice \<Rightarrow> int \<Rightarrow> ('s, 'p) Dep" where
  "reshuffleSlice_Dep r i =
     \<lparr>dep_Slice = Slice r, dep_Shuffle = True, dep_Partitioner = None, dep_Expand = False\<rparr>"

definition reshuffleSlice_Combiner :: "('n, 's) reshuffleSlice \<Rightarrow> 'f Func" where
  "reshuffleSlice_Combiner r = Func_Nil"

text \<open>
  The schema of the node: the method is promoted from the embedded upstream slice,
  whose own schema accessor is \<open>typ_of\<close>.
\<close>

definition reshuffleSlice_Type :: "('s \<Rightarrow> 't) \<Rightarrow> ('n, 's) reshuffleSlice \<Rightarrow> 't" where
  "reshuffleSlice_Type typ_of r = typ_of (Slice r)"

text \<open>\<^verbatim>\<open>reshuffleSlice.Reader\<close>; the shard number is not used.\<close>

definition reshuffleSlice_Reader ::
  "('n, 's) reshuffleSlice \<Rightarrow> int \<Rightarrow> 'r list \<Rightarrow> panic + 'r" where
  "reshuffleSlice_Reader r shard deps =
     (if length deps \<noteq> 1 then Inl (ExpectedOneDep (length deps))
      else Inr (deps ! 0))"

section \<open>The partitioned task buffer\<close>

text \<open>
  \<^verbatim>\<open>type taskBuffer [][][]reflect.Value\<close>: partitions, each a sequence of batches,
  each batch a sequence of column vectors. A column vector (a \<^verbatim>\<open>reflect.Value\<close> of
  a slice) is the list of its values; \<^verbatim>\<open>Len()\<close> is its length. Row counts are
  lengths of slices held in memory, far below the range of Go's 64-bit \<^verbatim>\<open>int\<close>,
  so offsets and counts are unbounded integers here.
\<close>

type_synonym 'a taskBuffer = "'a list list list list"

text \<open>
  The inner loop of \<^verbatim>\<open>Slice\<close>, over the batches of one partition, with the
  running count \<open>n\<close>. \<open>Inr (Inl (cols, off - n))\<close> is the \<^verbatim>\<open>return\<close> inside the
  loop, \<open>Inr (Inr n)\<close> falls through with the new count, and \<^verbatim>\<open>cols[0]\<close> on a batch
  with no column panics.
\<close>

fun Slice_batches ::
  "'a list list list \<Rightarrow> int \<Rightarrow> int \<Rightarrow> panic + ('a list list \<times> int) + int" where
  "Slice_batches [] off n = Inr (Inr n)"
| "Slice_batches (cols # rest) off n =
     (case cols of
        [] \<Rightarrow> Inl IndexOutOfRange
      | c0 # _ \<Rightarrow>
          (if n + int (length c0) > off then Inr (Inl (cols, off - n))
           else Slice_batches rest off (n + int (length c0))))"

text \<open>
  The outer loop \<^verbatim>\<open>for i := beg; i < end; i++\<close>; \<^verbatim>\<open>b[i]\<close> panics outside the
  buffer. After the loop \<^verbatim>\<open>Slice\<close> returns \<^verbatim>\<open>nil, -1\<close>; the nil slice is the
  empty list.
\<close>

function Slice_partitions ::
  "'a taskBuffer \<Rightarrow> int \<Rightarrow> int \<Rightarrow> int \<Rightarrow> int \<Rightarrow> panic + ('a list list \<times> int)" where
  "Slice_partitions b i end off n =
     (if i < end then
        (if i < 0 \<or> int (length b) \<le> i then Inl IndexOutOfRange
         else
           (case Slice_batches (b ! nat i) off n of
              Inl p \<Rightarrow> Inl p
            | Inr (Inl r) \<Rightarrow> Inr r
            | Inr (Inr n') \<Rightarrow> Slice_partitions b (i + 1) end off n'))
      else Inr ([], - 1))"
  by pat_completeness auto
termination
  by (relation "measure (\<lambda>(b, i, end, off, n). nat (end - i))") auto

text \<open>
  \<^verbatim>\<open>taskBuffer.Slice\<close>. The constant \<^verbatim>\<open>AllPartitions\<close> is declared outside the
  files at hand and is a parameter.
\<close>

definition taskBuffer_Slice ::
  "int \<Rightarrow> 'a taskBuffer \<Rightarrow> int \<Rightarrow> int \<Rightarrow> panic + ('a list list \<times> int)" where
  "taskBuffer_Slice AllPartitions b part off =
     (if part = AllPartitions then Slice_partitions b 0 (int (length b)) off 0
      else Slice_partitions b part (part + 1) off 0)"

text \<open>\<^verbatim>\<open>type taskBufferReader struct { q taskBuffer; i, j, k int }\<close>\<close>

record 'a taskBufferReader =
  tbr_q :: "'a taskBuffer"
  tbr_i :: int
  tbr_j :: int
  tbr_k :: int

text \<open>
  The labelled loop at the head of \<^verbatim>\<open>Read\<close>. The result \<open>(True, r)\<close> is
  \<^verbatim>\<open>return 0, EOF\<close> and \<open>(False, r)\<close> is \<^verbatim>\<open>break loop\<close>, in both cases with the
  cursor as the loop left it. Indexing outside a slice panics.
\<close>

function tbr_seek :: "'a taskBufferReader \<Rightarrow> panic + (bool \<times> 'a taskBufferReader)" where
  "tbr_seek r =
     (if int (length (tbr_q r)) = tbr_i r then Inr (True, r)
      else if tbr_i r < 0 \<or> int (length (tbr_q r)) < tbr_i r then Inl IndexOutOfRange
      else if int (length (tbr_q r ! nat (tbr_i r))) = tbr_j r
        then tbr_seek (r\<lparr>tbr_i := tbr_i r + 1, tbr_j := 0, tbr_k := 0\<rparr>)
      else if tbr_j r < 0 \<or> int (length (tbr_q r ! nat (tbr_i r))) < tbr_j r
        then Inl IndexOutOfRange
      else if tbr_q r ! nat (tbr_i r) ! nat (tbr_j r) = [] then Inl IndexOutOfRange
      else if int (length (tbr_q r ! nat (tbr_i r) ! nat (tbr_j r) ! 0)) = tbr_k r
        then tbr_seek (r\<lparr>tbr_j := tbr_j r + 1, tbr_k := 0\<rparr>)
      else Inr (False, r))"
  by pat_completeness auto
termination
  by (relation "measures
        [\<lambda>r. nat (int (length (tbr_q r)) - tbr_i r),
         \<lambda>r. nat (int (length (tbr_q r ! nat (tbr_i r))) - tbr_j r)]") auto

text \<open>
  The copy loop \<^verbatim>\<open>for i, val := range out\<close>: column \<open>i\<close> of the destination takes
  \<^verbatim>\<open>buf[i].Slice(k, l)\<close>. \<^verbatim>\<open>buf[i]\<close> panics when the batch has fewer columns than
  the destination, \<^verbatim>\<open>Slice\<close> panics outside the column (whose capacity is taken
  to be its length), and \<^verbatim>\<open>reflect.Copy\<close> copies as many values as both sides hold.
\<close>

fun tbr_copy :: "'a list list \<Rightarrow> 'a list list \<Rightarrow> int \<Rightarrow> int \<Rightarrow> panic + 'a list list" where
  "tbr_copy [] buf k l = Inr []"
| "tbr_copy (val # rest) buf k l =
     (case buf of
        [] \<Rightarrow> Inl IndexOutOfRange
      | col # buf' \<Rightarrow>
          (if k < 0 \<or> l < k \<or> int (length col) < l then Inl SliceBoundsOutOfRange
           else
             (case tbr_copy rest buf' k l of
                Inl p \<Rightarrow> Inl p
              | Inr vs \<Rightarrow>
                  Inr ((take (min (length val) (nat (l - k))) (drop (nat k) col)
                        @ drop (min (length val) (nat (l - k))) val) # vs))))"

text \<open>
  \<^verbatim>\<open>taskBufferReader.Read\<close>: the result, the reader after the call and the
  destination columns after the call.
\<close>

definition taskBufferReader_Read ::
  "'a taskBufferReader \<Rightarrow> 'a list list \<Rightarrow>
     panic + ((int \<times> 'e error option) \<times> 'a taskBufferReader \<times> 'a list list)" where
  "taskBufferReader_Read r out =
     (case tbr_seek r of
        Inl p \<Rightarrow> Inl p
      | Inr (True, r') \<Rightarrow> Inr ((0, Some EOF), r', out)
      | Inr (False, r') \<Rightarrow>
          (let buf = tbr_q r' ! nat (tbr_i r') ! nat (tbr_j r') in
           if out = [] then Inl IndexOutOfRange
           else
             (let n0 = int (length (out ! 0));
                  m = int (length (buf ! 0)) - tbr_k r';
                  n = (if m < n0 then m else n0);
                  l = tbr_k r' + n
              in case tbr_copy out buf (tbr_k r') l of
                   Inl p \<Rightarrow> Inl p
                 | Inr out' \<Rightarrow> Inr ((n, None), r'\<lparr>tbr_k := l\<rparr>, out'))))"

text \<open>\<^verbatim>\<open>taskBuffer.Reader\<close>; \<^verbatim>\<open>b[partition : partition+1]\<close> panics outside the buffer.\<close>

definition taskBuffer_Reader :: "int \<Rightarrow> 'a taskBuffer \<Rightarrow> int \<Rightarrow> panic + 'a taskBufferReader" where
  "taskBuffer_Reader AllPartitions b part =
     (if part = AllPartitions then Inr \<lparr>tbr_q = b, tbr_i = 0, tbr_j = 0, tbr_k = 0\<rparr>
      else if part < 0 \<or> int (length b) < part + 1 then Inl SliceBoundsOutOfRange
      else Inr \<lparr>tbr_q = [b ! nat part], tbr_i = 0, tbr_j = 0, tbr_k = 0\<rparr>)"


text \<open>
  The rows of a batch, read off its columns: row \<open>j\<close> holds the \<open>j\<close>-th value of each
  column, and the batch has as many rows as its first column has values
  (\<^verbatim>\<open>cols[0].Len()\<close>). A batch is well formed when it has a column and all its
  columns have the same length. The batches of a scope are those of the addressed
  partition, or of all partitions in order.
\<close>

definition batch_rows :: "'a list list \<Rightarrow> 'a list list" where
  "batch_rows cols = map (\<lambda>j. map (\<lambda>c. c ! j) cols) [0..<length (hd cols)]"

definition wf_batch :: "'a list list \<Rightarrow> bool" where
  "wf_batch cols = (cols \<noteq> [] \<and> list_all (\<lambda>c. length c = length (hd cols)) cols)"

definition scope_batches :: "int \<Rightarrow> 'a taskBuffer \<Rightarrow> int \<Rightarrow> 'a list list list" where
  "scope_batches AllPartitions b part =
     (if part = AllPartitions then concat b else b ! nat part)"

definition scope_rows :: "'a list list list \<Rightarrow> 'a list list" where
  "scope_rows bs = concat (map batch_rows bs)"

text \<open>What \<^verbatim>\<open>Slice\<close> returns for each way the loops can end.\<close>

definition Slice_result :: "panic + ('a list list \<times> int) + int \<Rightarrow> panic + ('a list list \<times> int)" where
  "Slice_result x = (case x of Inl p \<Rightarrow> Inl p | Inr (Inl r) \<Rightarrow> Inr r | Inr (Inr n) \<Rightarrow> Inr ([], - 1))"

section \<open>Record batches and sequential readers\<close>

text \<open>
  Modelled from the spec: the record batch (\<^verbatim>\<open>frame.Frame\<close>), whose package is not
  among the files at hand. The spec gives it a fixed schema, \<^verbatim>\<open>Len\<close> valid rows,
  \<^verbatim>\<open>Cap\<close> allocated rows, \<^verbatim>\<open>Slice(lo, hi)\<close> as a view that copies nothing, and
  row access by position within the batch. A frame is the storage its view reaches
  (\<open>rows\<close>, capacity many) and its length \<open>flen\<close>; a row is a value of type \<open>'a\<close>.
  A view shares its storage with the frame it was cut from, so code that writes
  through a view writes the rows back into the frame explicitly.
\<close>

record 'a frame =
  rows :: "'a list"
  flen :: nat

definition frame_Len :: "'a frame \<Rightarrow> int" where
  "frame_Len f = int (flen f)"

definition frame_Cap :: "'a frame \<Rightarrow> int" where
  "frame_Cap f = int (length (rows f))"

text \<open>
  Modelled from the spec: \<^verbatim>\<open>frame.Make(typ, n)\<close> allocates a batch of length and
  capacity \<open>n\<close>. The schema \<open>typ\<close> is represented by its zero row, which fills the
  new batch.
\<close>

definition frame_Make :: "'a \<Rightarrow> nat \<Rightarrow> 'a frame" where
  "frame_Make typ n = \<lparr>rows = replicate n typ, flen = n\<rparr>"

text \<open>
  Modelled from the spec: \<^verbatim>\<open>frame.Make(typ, n)\<close> for a number of rows that the program
  computes at run time. Go's \<^verbatim>\<open>make\<close> panics on a negative length and on a length
  beyond what can be allocated; \<open>maxRows\<close> is the largest number of rows of a batch
  that the machine can allocate. The batches of a size fixed in the program
  (\<^verbatim>\<open>1<<14\<close> and \<^verbatim>\<open>sliceio.SpillBatchSize\<close> rows) are allocated with \<open>frame_Make\<close>.
\<close>

definition frame_Make_within :: "nat \<Rightarrow> 'a \<Rightarrow> int \<Rightarrow> panic + 'a frame" where
  "frame_Make_within maxRows typ n =
     (if n < 0 \<or> int maxRows < n then Inl MakeLenOutOfRange
      else Inr (frame_Make typ (nat n)))"

text \<open>
  Modelled from the spec: \<^verbatim>\<open>Slice(i, j)\<close>, the view of rows \<open>i\<close> up to \<open>j\<close>; it keeps
  the capacity behind \<open>i\<close> and panics unless \<open>0 \<le> i \<le> j \<le> Cap\<close>.
\<close>

definition frame_Slice :: "'a frame \<Rightarrow> int \<Rightarrow> int \<Rightarrow> panic + 'a frame" where
  "frame_Slice f i j =
     (if i < 0 \<or> j < i \<or> frame_Cap f < j then Inl SliceBoundsOutOfRange
      else Inr \<lparr>rows = drop (nat i) (rows f), flen = nat (j - i)\<rparr>)"

text \<open>
  Modelled from the spec: \<^verbatim>\<open>CopyIndex(row, i)\<close> reads the row at position \<open>i\<close> and
  \<^verbatim>\<open>SetIndex(row, i)\<close> writes it; both panic outside the storage.
\<close>

definition frame_CopyIndex :: "'a frame \<Rightarrow> int \<Rightarrow> panic + 'a" where
  "frame_CopyIndex f i =
     (if i < 0 \<or> frame_Cap f \<le> i then Inl IndexOutOfRange else Inr (rows f ! nat i))"

definition frame_SetIndex :: "'a frame \<Rightarrow> 'a \<Rightarrow> int \<Rightarrow> panic + 'a frame" where
  "frame_SetIndex f row i =
     (if i < 0 \<or> frame_Cap f \<le> i then Inl IndexOutOfRange
      else Inr (f\<lparr>rows := (rows f)[nat i := row]\<rparr>))"

text \<open>
  A \<^verbatim>\<open>sliceio.Reader\<close> is an interface value: its state has type \<open>'r\<close>, and its
  method \<^verbatim>\<open>Read(ctx, frame)\<close> is a function \<open>rd\<close> that returns the count and the
  error, the reader after the call and the frame after the call.
\<close>

type_synonym ('a, 'r, 'e) Read =
  "'r \<Rightarrow> 'a frame \<Rightarrow> (int \<times> 'e error option) \<times> 'r \<times> 'a frame"

section \<open>The read-ahead buffer\<close>

text \<open>
  \<^verbatim>\<open>type FrameBuffer struct { frame.Frame; sliceio.Reader; Off, Len int; Index int; N int }\<close>
\<close>

record ('a, 'r) FrameBuffer =
  Frame :: "'a frame"
  Reader :: 'r
  Off :: int
  Len :: int
  Index :: int
  N :: int

text \<open>
  \<^verbatim>\<open>FrameBuffer.Fill\<close>: the buffer after the call and the error returned. On the
  early return for an error other than \<^verbatim>\<open>EOF\<close> the offset keeps its value.
  \<^verbatim>\<open>Slice(0, Cap)\<close> cannot panic.
\<close>

definition FrameBuffer_Fill ::
  "('a, 'r, 'e) Read \<Rightarrow> ('a, 'r) FrameBuffer \<Rightarrow> ('a, 'r) FrameBuffer \<times> 'e error option" where
  "FrameBuffer_Fill rd f =
     (let fr = (if frame_Len (Frame f) < frame_Cap (Frame f)
                then (case frame_Slice (Frame f) 0 (frame_Cap (Frame f)) of
                        Inr v \<Rightarrow> v | Inl p \<Rightarrow> Frame f)
                else Frame f);
          ((n, err), r', fr') = rd (Reader f) fr;
          f1 = f\<lparr>Frame := fr', Reader := r', Len := n, N := N f + 1\<rparr>
      in if err \<noteq> None \<and> err \<noteq> Some EOF then (f1, err)
         else
           (let err2 = (if err = Some EOF \<and> Len f1 > 0 then None else err);
                f2 = f1\<lparr>Off := 0\<rparr>;
                err3 = (if Len f2 = 0 \<and> err2 = None then Some EOF else err2)
            in (f2, err3)))"

section \<open>The heap of the standard library\<close>

text \<open>
  \<^verbatim>\<open>container/heap\<close> of Go's standard library, which \<^verbatim>\<open>sort.go\<close> calls through
  \<^verbatim>\<open>heap.Init\<close>, \<^verbatim>\<open>heap.Fix\<close> and \<^verbatim>\<open>heap.Remove\<close>. The heap is the slice of its
  elements; \<open>lt\<close> compares two elements (\<^verbatim>\<open>Less(i, j)\<close> is \<open>lt (h ! i) (h ! j)\<close>).
  Indices are natural numbers: in \<^verbatim>\<open>up\<close> the parent \<^verbatim>\<open>(j - 1) / 2\<close> of \<open>j = 0\<close> is \<open>0\<close>
  in Go (division truncates towards zero) as it is here.
\<close>

definition heap_Swap :: "'b list \<Rightarrow> nat \<Rightarrow> nat \<Rightarrow> 'b list" where
  "heap_Swap h i j = h[i := h ! j, j := h ! i]"

function heap_up :: "('b \<Rightarrow> 'b \<Rightarrow> bool) \<Rightarrow> 'b list \<Rightarrow> nat \<Rightarrow> 'b list" where
  "heap_up lt h j =
     (if (j - 1) div 2 = j \<or> \<not> lt (h ! j) (h ! ((j - 1) div 2)) then h
      else heap_up lt (heap_Swap h ((j - 1) div 2) j) ((j - 1) div 2))"
  by pat_completeness auto
termination
  by (relation "measure (\<lambda>(lt, h, j). j)") auto

text \<open>The loop of \<^verbatim>\<open>down\<close>; it returns the heap and the position \<open>i\<close> it stopped at.\<close>

function heap_down_loop ::
  "('b \<Rightarrow> 'b \<Rightarrow> bool) \<Rightarrow> 'b list \<Rightarrow> nat \<Rightarrow> nat \<Rightarrow> 'b list \<times> nat" where
  "heap_down_loop lt h i n =
     (if 2 * i + 1 \<ge> n then (h, i)
      else
        (let j = (if 2 * i + 2 < n \<and> lt (h ! (2 * i + 2)) (h ! (2 * i + 1))
                  then 2 * i + 2 else 2 * i + 1)
         in if \<not> lt (h ! j) (h ! i) then (h, i)
            else heap_down_loop lt (heap_Swap h i j) j n))"
  by pat_completeness auto
termination
  by (relation "measure (\<lambda>(lt, h, i, n). n - i)") (auto simp: Let_def)

definition heap_down ::
  "('b \<Rightarrow> 'b \<Rightarrow> bool) \<Rightarrow> 'b list \<Rightarrow> nat \<Rightarrow> nat \<Rightarrow> 'b list \<times> bool" where
  "heap_down lt h i0 n = (case heap_down_loop lt h i0 n of (h', i) \<Rightarrow> (h', i > i0))"

text \<open>
  \<^verbatim>\<open>for i := n/2 - 1; i >= 0; i--\<close>: the second argument counts the positions still
  to sift, so that \<open>Suc i\<close> sifts position \<open>i\<close>.
\<close>

fun heap_Init_loop :: "('b \<Rightarrow> 'b \<Rightarrow> bool) \<Rightarrow> 'b list \<Rightarrow> nat \<Rightarrow> 'b list" where
  "heap_Init_loop lt h 0 = h"
| "heap_Init_loop lt h (Suc i) = heap_Init_loop lt (fst (heap_down lt h i (length h))) i"

definition heap_Init :: "('b \<Rightarrow> 'b \<Rightarrow> bool) \<Rightarrow> 'b list \<Rightarrow> 'b list" where
  "heap_Init lt h = heap_Init_loop lt h (length h div 2)"

definition heap_Fix :: "('b \<Rightarrow> 'b \<Rightarrow> bool) \<Rightarrow> 'b list \<Rightarrow> nat \<Rightarrow> 'b list" where
  "heap_Fix lt h i =
     (case heap_down lt h i (length h) of
        (h', moved) \<Rightarrow> if \<not> moved then heap_up lt h' i else h')"

text \<open>
  \<^verbatim>\<open>heap.Remove\<close>, with the \<^verbatim>\<open>Pop\<close> of \<^verbatim>\<open>FrameBufferHeap\<close>, which cuts the last
  element off; on an empty heap the indexing panics.
\<close>

definition heap_Remove :: "('b \<Rightarrow> 'b \<Rightarrow> bool) \<Rightarrow> 'b list \<Rightarrow> nat \<Rightarrow> panic + 'b list" where
  "heap_Remove lt h i =
     (if h = [] \<or> length h \<le> i then Inl IndexOutOfRange
      else
        (let n = length h - 1;
             h1 = (if n \<noteq> i
                   then (case heap_down lt (heap_Swap h i n) i n of
                           (h', moved) \<Rightarrow> if \<not> moved then heap_up lt h' i else h')
                   else h)
         in Inr (butlast h1)))"

section \<open>Orders and the heap property\<close>

text \<open>
  The comparator of a sorter is a strict weak order: \<open>lt x y\<close> excludes \<open>lt y x\<close>, and
  "not less than" is transitive, so that \<open>\<not> lt y x\<close> is a total preorder \<open>x \<le> y\<close>.
\<close>

definition strict_weak_order :: "('b \<Rightarrow> 'b \<Rightarrow> bool) \<Rightarrow> bool" where
  "strict_weak_order lt =
     ((\<forall>x y. lt x y \<longrightarrow> \<not> lt y x) \<and>
      (\<forall>x y z. \<not> lt x y \<and> \<not> lt y z \<longrightarrow> \<not> lt x z))"

text \<open>
  The heap property of the first \<open>n\<close> elements, for the edges whose parent is at \<open>lo\<close>
  or later: no child is less than its parent \<open>(j - 1) div 2\<close>. The second predicate
  leaves out the edges below position \<open>i\<close>, and asks instead that the children of \<open>i\<close>
  are not less than the parent of \<open>i\<close>: the state of the heap while \<^verbatim>\<open>down\<close> sifts the
  element at \<open>i\<close>.
\<close>

definition heap_from :: "('b \<Rightarrow> 'b \<Rightarrow> bool) \<Rightarrow> 'b list \<Rightarrow> nat \<Rightarrow> nat \<Rightarrow> bool" where
  "heap_from lt h n lo =
     (\<forall>j. 0 < j \<and> j < n \<and> lo \<le> (j - 1) div 2 \<longrightarrow> \<not> lt (h ! j) (h ! ((j - 1) div 2)))"

definition heap_except :: "('b \<Rightarrow> 'b \<Rightarrow> bool) \<Rightarrow> 'b list \<Rightarrow> nat \<Rightarrow> nat \<Rightarrow> nat \<Rightarrow> bool" where
  "heap_except lt h n lo i =
     ((\<forall>j. 0 < j \<and> j < n \<and> lo \<le> (j - 1) div 2 \<and> (j - 1) div 2 \<noteq> i \<longrightarrow>
           \<not> lt (h ! j) (h ! ((j - 1) div 2))) \<and>
      (\<forall>j. 0 < j \<and> j < n \<and> (j - 1) div 2 = i \<and> 0 < i \<and> lo \<le> (i - 1) div 2 \<longrightarrow>
           \<not> lt (h ! j) (h ! ((i - 1) div 2))))"

section \<open>The merge reader\<close>

text \<open>
  \<^verbatim>\<open>FrameBufferHeap.Less\<close>: the comparator \<^verbatim>\<open>Sorter.Less\<close> of the sorter, here \<open>sless\<close>, applied to the
  rows at the offsets of the two buffers. Every buffer that the merge reader keeps
  in its heap has its offset inside its frame; the index is meant there.
\<close>

definition FrameBuffer_less ::
  "('a \<Rightarrow> 'a \<Rightarrow> bool) \<Rightarrow> ('a, 'r) FrameBuffer \<Rightarrow> ('a, 'r) FrameBuffer \<Rightarrow> bool" where
  "FrameBuffer_less sless x y =
     sless (rows (Frame x) ! nat (Off x)) (rows (Frame y) ! nat (Off y))"

text \<open>\<^verbatim>\<open>type mergeReader struct { err error; heap *FrameBufferHeap }\<close>\<close>

record ('a, 'r, 'e) mergeReader =
  m_err :: "'e error option"
  m_heap :: "('a, 'r) FrameBuffer list"

text \<open>
  The loop of \<^verbatim>\<open>NewMergeReader\<close> over the readers, with the buffers kept so far.
  \<^verbatim>\<open>sliceio.SpillBatchSize\<close> is declared outside the files at hand and is a
  parameter.
\<close>

fun NewMergeReader_loop ::
  "('a, 'r, 'e) Read \<Rightarrow> 'a \<Rightarrow> nat \<Rightarrow> 'r list \<Rightarrow> ('a, 'r) FrameBuffer list \<Rightarrow>
     'e error + ('a, 'r) FrameBuffer list" where
  "NewMergeReader_loop rd typ SpillBatchSize [] bufs = Inr bufs"
| "NewMergeReader_loop rd typ SpillBatchSize (r # readers) bufs =
     (case FrameBuffer_Fill rd
             \<lparr>Frame = frame_Make typ SpillBatchSize, Reader = r,
              Off = 0, Len = 0, Index = 0, N = 0\<rparr> of
        (fr, Some EOF) \<Rightarrow> NewMergeReader_loop rd typ SpillBatchSize readers bufs
      | (fr, Some (Other e)) \<Rightarrow> Inl (Other e)
      | (fr, None) \<Rightarrow> NewMergeReader_loop rd typ SpillBatchSize readers (bufs @ [fr]))"

definition NewMergeReader ::
  "('a, 'r, 'e) Read \<Rightarrow> ('a \<Rightarrow> 'a \<Rightarrow> bool) \<Rightarrow> 'a \<Rightarrow> nat \<Rightarrow> 'r list \<Rightarrow>
     'e error + ('a, 'r, 'e) mergeReader" where
  "NewMergeReader rd sless typ SpillBatchSize readers =
     (case NewMergeReader_loop rd typ SpillBatchSize readers [] of
        Inl e \<Rightarrow> Inl e
      | Inr bufs \<Rightarrow> Inr \<lparr>m_err = None, m_heap = heap_Init (FrameBuffer_less sless) bufs\<rparr>)"

text \<open>
  One turn of the loop of \<^verbatim>\<open>mergeReader.Read\<close>: the heap, the destination and
  the counter \<open>n\<close> after it and, when the refill failed, the error of the
  \<^verbatim>\<open>return 0, err\<close> inside the loop.
\<close>

definition Read_step ::
  "('a, 'r, 'e) Read \<Rightarrow> ('a \<Rightarrow> 'a \<Rightarrow> bool) \<Rightarrow> ('a, 'r) FrameBuffer list \<Rightarrow> 'a frame \<Rightarrow> int \<Rightarrow>
     panic + (('a, 'r) FrameBuffer list \<times> 'a frame \<times> int \<times> 'e error option)" where
  "Read_step rd sless h out n =
     (case frame_CopyIndex (Frame (h ! 0)) (Off (h ! 0)) of
        Inl p \<Rightarrow> Inl p
      | Inr row \<Rightarrow>
         (case frame_SetIndex out row n of
            Inl p \<Rightarrow> Inl p
          | Inr out' \<Rightarrow>
             (let h1 = h[0 := (h ! 0)\<lparr>Off := Off (h ! 0) + 1\<rparr>] in
              if Off (h1 ! 0) = Len (h1 ! 0) then
                (case FrameBuffer_Fill rd (h1 ! 0) of
                   (b, Some (Other e)) \<Rightarrow> Inr (h1[0 := b], out', n + 1, Some (Other e))
                 | (b, Some EOF) \<Rightarrow>
                     (case heap_Remove (FrameBuffer_less sless) (h1[0 := b]) 0 of
                        Inl p \<Rightarrow> Inl p
                      | Inr h2 \<Rightarrow> Inr (h2, out', n + 1, None))
                 | (b, None) \<Rightarrow>
                     Inr (heap_Fix (FrameBuffer_less sless) (h1[0 := b]) 0, out', n + 1, None))
              else Inr (heap_Fix (FrameBuffer_less sless) h1 0, out', n + 1, None))))"

lemma Read_step_counter:
  "Read_step rd sless h out n = Inr (h', out', n', e) \<Longrightarrow> n' = n + 1"
  by (auto simp: Read_step_def Let_def
      split: sum.splits if_splits prod.splits option.splits error.splits)

text \<open>
  The loop \<^verbatim>\<open>for n < max && len(m.heap.Buffers) > 0\<close>, with \<open>mx\<close> for \<^verbatim>\<open>max\<close>. It
  returns the heap, the destination, the number \<open>n\<close> of rows copied and the error
  of a failed refill, if any.
\<close>

function Read_loop ::
  "('a, 'r, 'e) Read \<Rightarrow> ('a \<Rightarrow> 'a \<Rightarrow> bool) \<Rightarrow> ('a, 'r) FrameBuffer list \<Rightarrow> 'a frame \<Rightarrow>
     int \<Rightarrow> int \<Rightarrow> panic + (('a, 'r) FrameBuffer list \<times> 'a frame \<times> int \<times> 'e error option)" where
  "Read_loop rd sless h out n mx =
     (if n < mx \<and> length h > 0 then
        (case Read_step rd sless h out n of
           Inl p \<Rightarrow> Inl p
         | Inr (h', out', n', Some e) \<Rightarrow> Inr (h', out', n', Some e)
         | Inr (h', out', n', None) \<Rightarrow> Read_loop rd sless h' out' n' mx)
      else Inr (h, out, n, None))"
  by pat_completeness auto
termination
  by (relation "measure (\<lambda>(rd, sless, h, out, n, mx). nat (mx - n))")
    (auto dest: Read_step_counter)

text \<open>
  \<^verbatim>\<open>mergeReader.Read\<close>: the count and the error returned, the reader after the call
  and the destination after the call.
\<close>

definition mergeReader_Read ::
  "('a, 'r, 'e) Read \<Rightarrow> ('a \<Rightarrow> 'a \<Rightarrow> bool) \<Rightarrow> ('a, 'r, 'e) mergeReader \<Rightarrow> 'a frame \<Rightarrow>
     panic + ((int \<times> 'e error option) \<times> ('a, 'r, 'e) mergeReader \<times> 'a frame)" where
  "mergeReader_Read rd sless m out =
     (if m_err m \<noteq> None then Inr ((0, m_err m), m, out)
      else
        (case Read_loop rd sless (m_heap m) out 0 (frame_Len out) of
           Inl p \<Rightarrow> Inl p
         | Inr (h, out', n, Some e) \<Rightarrow>
             Inr ((0, Some e), m\<lparr>m_heap := h, m_err := Some e\<rparr>, out')
         | Inr (h, out', n, None) \<Rightarrow>
             (let m' = (if n = 0 then m\<lparr>m_heap := h, m_err := Some EOF\<rparr>
                        else m\<lparr>m_heap := h\<rparr>)
              in Inr ((n, m_err m'), m', out'))))"

section \<open>Sorted runs and the state of a merge\<close>

text \<open>
  Rows in non-decreasing order under the comparator: no row is less than one before
  it.
\<close>

definition sorted_rows :: "('a \<Rightarrow> 'a \<Rightarrow> bool) \<Rightarrow> 'a list \<Rightarrow> bool" where
  "sorted_rows sless xs = sorted_wrt (\<lambda>x y. \<not> sless y x) xs"

text \<open>
  What a sequential reader owes its caller, after the spec's contract of
  \<^verbatim>\<open>Read(ctx, batch)\<close>: the reader stands for the rows \<open>cont r\<close> it has still to
  deliver. Called on a frame whose length is within its capacity, it returns a count
  \<open>n\<close> between \<open>0\<close> and the length of the frame, writes the next \<open>n\<close> rows to the front
  of the frame, keeps the shape of the frame and has the remaining rows still to
  deliver. With no error and room in the frame it delivers at least one row (a
  result of zero rows and no error is invalid), it returns \<^verbatim>\<open>EOF\<close> only when nothing
  remains, and it returns no other error.
\<close>

definition reader_contract :: "('a, 'r, 'e) Read \<Rightarrow> ('r \<Rightarrow> 'a list) \<Rightarrow> bool" where
  "reader_contract rd cont =
     (\<forall>r f n err r' f'. flen f \<le> length (rows f) \<and> rd r f = ((n, err), r', f') \<longrightarrow>
        0 \<le> n \<and> n \<le> frame_Len f \<and> nat n \<le> length (cont r) \<and>
        flen f' = flen f \<and> length (rows f') = length (rows f) \<and>
        take (nat n) (rows f') = take (nat n) (cont r) \<and>
        cont r' = drop (nat n) (cont r) \<and>
        (err = None \<longrightarrow> 0 < frame_Len f \<longrightarrow> 0 < n) \<and>
        (err = Some EOF \<longrightarrow> cont r' = []) \<and>
        (\<forall>e. err \<noteq> Some (Other e)))"

text \<open>
  A buffer that the merge reader keeps in its heap holds unread rows: its offset is
  inside the valid rows, which are inside the frame. The rows it has still to
  deliver are the unread rows of its window followed by the rows of its source.
\<close>

definition buffer_ok :: "('a, 'r) FrameBuffer \<Rightarrow> bool" where
  "buffer_ok b =
     (0 \<le> Off b \<and> Off b < Len b \<and> Len b \<le> frame_Cap (Frame b) \<and>
      frame_Len (Frame b) \<le> frame_Cap (Frame b))"

definition buffer_rows :: "('r \<Rightarrow> 'a list) \<Rightarrow> ('a, 'r) FrameBuffer \<Rightarrow> 'a list" where
  "buffer_rows cont b =
     take (nat (Len b - Off b)) (drop (nat (Off b)) (rows (Frame b))) @ cont (Reader b)"

text \<open>
  The rows a heap of buffers has still to deliver, as a multiset, and the state of a
  merge between two turns of the loop: every buffer holds unread rows, the rows of
  every buffer are in order, and the buffers form a heap under the comparison of
  their current rows.
\<close>

definition heap_rows :: "('r \<Rightarrow> 'a list) \<Rightarrow> ('a, 'r) FrameBuffer list \<Rightarrow> 'a multiset" where
  "heap_rows cont h = sum_mset (image_mset (\<lambda>b. mset (buffer_rows cont b)) (mset h))"

definition merge_inv ::
  "('a \<Rightarrow> 'a \<Rightarrow> bool) \<Rightarrow> ('r \<Rightarrow> 'a list) \<Rightarrow> ('a, 'r) FrameBuffer list \<Rightarrow> bool" where
  "merge_inv sless cont h =
     (list_all buffer_ok h \<and>
      list_all (\<lambda>b. sorted_rows sless (buffer_rows cont b)) h \<and>
      heap_from (FrameBuffer_less sless) h (length h) 0)"

text \<open>
  The rows that the loop of \<open>Read\<close> has written to the destination between the
  counter values \<open>n\<close> and \<open>n'\<close>.
\<close>

definition emitted :: "'a frame \<Rightarrow> int \<Rightarrow> int \<Rightarrow> 'a list" where
  "emitted out n n' = take (nat (n' - n)) (drop (nat n) (rows out))"

text \<open>
  The buffer \<^verbatim>\<open>NewMergeReader\<close> makes for a reader (the literal
  \<^verbatim>\<open>&FrameBuffer{Reader: readers[i], Frame: frame.Make(typ, sliceio.SpillBatchSize)}\<close>)
  and that buffer after its first \<open>Fill\<close>.
\<close>

definition new_buffer :: "'a \<Rightarrow> nat \<Rightarrow> 'r \<Rightarrow> ('a, 'r) FrameBuffer" where
  "new_buffer typ SpillBatchSize r =
     \<lparr>Frame = frame_Make typ SpillBatchSize, Reader = r, Off = 0, Len = 0, Index = 0, N = 0\<rparr>"

definition filled_buffer ::
  "('a, 'r, 'e) Read \<Rightarrow> 'a \<Rightarrow> nat \<Rightarrow> 'r \<Rightarrow> ('a, 'r) FrameBuffer" where
  "filled_buffer rd typ SpillBatchSize r =
     fst (FrameBuffer_Fill rd (new_buffer typ SpillBatchSize r))"

section \<open>Reading a stream to its end\<close>

text \<open>
  A caller that reads a merge reader to completion: one \<open>Read\<close> per destination
  frame of the list, until a call returns an error or \<^verbatim>\<open>EOF\<close>. The result is the
  rows delivered (of each call the first \<open>n\<close> rows of its destination), the error
  that ended the reading (\<open>None\<close> when the frames ran out first) and the reader at
  the end.
\<close>

fun Read_all ::
  "('a, 'r, 'e) Read \<Rightarrow> ('a \<Rightarrow> 'a \<Rightarrow> bool) \<Rightarrow> ('a, 'r, 'e) mergeReader \<Rightarrow> 'a frame list \<Rightarrow>
     panic + ('a list \<times> 'e error option \<times> ('a, 'r, 'e) mergeReader)" where
  "Read_all rd sless m [] = Inr ([], None, m)"
| "Read_all rd sless m (out # outs) =
     (case mergeReader_Read rd sless m out of
        Inl p \<Rightarrow> Inl p
      | Inr ((n, e), m', out') \<Rightarrow>
          (if e \<noteq> None then Inr (take (nat n) (rows out'), e, m')
           else
             (case Read_all rd sless m' outs of
                Inl p \<Rightarrow> Inl p
              | Inr (xs, e', m'') \<Rightarrow> Inr (take (nat n) (rows out') @ xs, e', m''))))"

section \<open>Integers and floating-point numbers of Go\<close>

text \<open>
  Go's integer division truncates towards zero. Counts of rows and of bytes are far
  below the range of the 64-bit \<^verbatim>\<open>int\<close> and are unbounded integers here.
\<close>

definition go_div :: "int \<Rightarrow> int \<Rightarrow> int" where
  "go_div a b = sgn a * sgn b * (\<bar>a\<bar> div \<bar>b\<bar>)"

text \<open>
  Go's \<^verbatim>\<open>float64\<close> is the binary64 format of IEEE 754: a conversion and a division
  round the exact result to the nearest number with 53 significant bits, a tie to
  the one whose last bit is even. \<open>f64_exponent x\<close> is the exponent \<open>e\<close> of a positive
  \<open>x\<close>, with \<open>2 powi e \<le> x < 2 powi (e + 1)\<close>, and \<open>f64_round\<close> rounds a rational number.
  The numbers at hand are quotients of 64-bit integers, inside the range of the
  normal numbers, so that neither overflow nor gradual underflow occurs.
\<close>

definition f64_exponent :: "rat \<Rightarrow> int" where
  "f64_exponent x =
     (let (p, q) = quotient_of x;
          e = bitlen p - bitlen q
      in if 2 powi e \<le> x then e else e - 1)"

definition round_half_even :: "rat \<Rightarrow> int" where
  "round_half_even m =
     (let k = \<lfloor>m\<rfloor>; r = m - of_int k
      in if r < 1 / 2 then k
         else if 1 / 2 < r then k + 1
         else if even k then k else k + 1)"

definition f64_round :: "rat \<Rightarrow> rat" where
  "f64_round x =
     (if x = 0 then 0
      else sgn x * of_int (round_half_even (\<bar>x\<bar> / 2 powi (f64_exponent \<bar>x\<bar> - 52)))
             * 2 powi (f64_exponent \<bar>x\<bar> - 52))"

text \<open>
  \<^verbatim>\<open>math.Abs(float64(a)/float64(b)) > 0.05\<close>: the conversions, the division and
  the constant are rounded, \<^verbatim>\<open>math.Abs\<close> and the comparison are exact. A division
  by zero gives an infinity, which exceeds the bound, unless \<open>a\<close> is zero as well:
  that gives a NaN, which compares false.
\<close>

definition exceeds_5_percent :: "int \<Rightarrow> int \<Rightarrow> bool" where
  "exceeds_5_percent a b =
     (if b = 0 then a \<noteq> 0
      else \<bar>f64_round (f64_round (of_int a) / f64_round (of_int b))\<bar> > f64_round (1 / 20))"

section \<open>The collaborators of the sort\<close>

text \<open>
  Modelled from the spec: \<^verbatim>\<open>sliceio.ReadFull\<close>, which is not among the files at
  hand. The spec has it read up to the length of the batch from the source, a short
  read ending at end-of-stream: it reads into the rest of the frame until the frame
  is full, and returns the rows read so far with the first error (\<^verbatim>\<open>EOF\<close> included)
  of the source. A view shares the storage of the frame, so the rows read into the
  view \<^verbatim>\<open>f.Slice(n, len)\<close> are written back behind the first \<open>n\<close> rows. A source that
  goes on returning no row and no error keeps the loop running: the result is
  \<open>None\<close>.
\<close>

partial_function (option) ReadFull_loop ::
  "('a, 'r, 'e) Read \<Rightarrow> 'r \<Rightarrow> 'a frame \<Rightarrow> int \<Rightarrow>
     (panic + ((int \<times> 'e error option) \<times> 'r \<times> 'a frame)) option" where
  "ReadFull_loop rd r f n =
     (if n < frame_Len f then
        (case frame_Slice f n (frame_Len f) of
           Inl p \<Rightarrow> Some (Inl p)
         | Inr v \<Rightarrow>
            (case rd r v of
               ((m, err), r', v') \<Rightarrow>
                 if err \<noteq> None
                 then Some (Inr ((n + m, err), r', f\<lparr>rows := take (nat n) (rows f) @ rows v'\<rparr>))
                 else ReadFull_loop rd r' (f\<lparr>rows := take (nat n) (rows f) @ rows v'\<rparr>) (n + m)))
      else Some (Inr ((n, None), r, f)))"

definition ReadFull ::
  "('a, 'r, 'e) Read \<Rightarrow> 'r \<Rightarrow> 'a frame \<Rightarrow>
     (panic + ((int \<times> 'e error option) \<times> 'r \<times> 'a frame)) option" where
  "ReadFull rd r f = ReadFull_loop rd r f 0"

text \<open>
  Modelled from the spec: the interfaces that \<^verbatim>\<open>SortReader\<close> calls and whose
  packages are not among the files at hand, with the constant
  \<^verbatim>\<open>sliceio.SpillBatchSize\<close>. \<open>Reader_Read\<close> is \<^verbatim>\<open>Reader.Read\<close>; \<open>Sorter_Sort\<close> and
  \<open>Sorter_Less\<close> are the two methods of \<^verbatim>\<open>kernel.Sorter\<close>, the first on the rows of
  a batch and the second on two rows; \<open>NewSpiller\<close> is the result of
  \<^verbatim>\<open>sliceio.NewSpiller()\<close>; \<open>Spiller_Spill\<close> persists the rows of a batch as one run
  and returns the number of bytes written; \<open>Spiller_Readers\<close> returns one reader per
  run. \<^verbatim>\<open>Spiller.Cleanup\<close>, which \<^verbatim>\<open>SortReader\<close> defers, releases the storage when
  \<^verbatim>\<open>SortReader\<close> returns and has no part in what is returned. \<open>MaxRows\<close> is the
  largest batch that the machine can allocate.
\<close>

record ('a, 'r, 'sp, 'e) collaborators =
  Reader_Read :: "('a, 'r, 'e) Read"
  Sorter_Sort :: "'a list \<Rightarrow> 'a list"
  Sorter_Less :: "'a \<Rightarrow> 'a \<Rightarrow> bool"
  NewSpiller :: "'sp \<times> 'e error option"
  Spiller_Spill :: "'sp \<Rightarrow> 'a frame \<Rightarrow> (int \<times> 'e error option) \<times> 'sp"
  Spiller_Readers :: "'sp \<Rightarrow> 'r list \<times> 'e error option"
  SpillBatchSize :: nat
  MaxRows :: nat

text \<open>
  What the sort relies on: the sorter's comparator is a strict weak order and its
  \<^verbatim>\<open>Sort\<close> puts the rows of a batch in that order; a new spiller holds no run,
  \<^verbatim>\<open>Spill\<close> appends the rows of the batch as a run, \<^verbatim>\<open>Readers\<close> returns for each
  run a reader that has the rows of the run to deliver, and none of them fails.
  \<open>runs\<close> gives the runs a spiller holds. Nothing is asked of the number of bytes
  that \<^verbatim>\<open>Spill\<close> reports.
\<close>

definition sorter_contract :: "('a, 'r, 'sp, 'e) collaborators \<Rightarrow> bool" where
  "sorter_contract c =
     (strict_weak_order (Sorter_Less c) \<and>
      (\<forall>xs. mset (Sorter_Sort c xs) = mset xs \<and>
            sorted_rows (Sorter_Less c) (Sorter_Sort c xs)))"

definition spiller_contract ::
  "('a, 'r, 'sp, 'e) collaborators \<Rightarrow> ('r \<Rightarrow> 'a list) \<Rightarrow> ('sp \<Rightarrow> 'a list list) \<Rightarrow> bool" where
  "spiller_contract c cont runs =
     ((\<exists>sp0. NewSpiller c = (sp0, None) \<and> runs sp0 = []) \<and>
      (\<forall>sp g. flen g \<le> length (rows g) \<longrightarrow>
         (\<exists>sz sp'. Spiller_Spill c sp g = ((sz, None), sp') \<and>
            runs sp' = runs sp @ [take (flen g) (rows g)])) \<and>
      (\<forall>sp. \<exists>rs. Spiller_Readers c sp = (rs, None) \<and> map cont rs = runs sp))"

text \<open>
  A spiller whose runs take at least one byte per row: the number of bytes that
  \<^verbatim>\<open>Spill\<close> reports for a batch is not below the number of its rows.
\<close>

definition byte_per_row :: "('a, 'r, 'sp, 'e) collaborators \<Rightarrow> bool" where
  "byte_per_row c = (\<forall>sp g. int (flen g) \<le> fst (fst (Spiller_Spill c sp g)))"

section \<open>The sort\<close>

text \<open>
  Lines 50 to 62 of \<^verbatim>\<open>SortReader\<close>: the working batch for the next turn, from the
  batch \<open>f\<close> of this turn, the bytes \<open>sz\<close> spilled and the rows \<open>n\<close> read. Both
  divisions panic on a zero divisor, and the allocation of the new batch panics
  beyond \<open>maxRows\<close> rows.
\<close>

definition SortReader_resize ::
  "nat \<Rightarrow> nat \<Rightarrow> int \<Rightarrow> 'a \<Rightarrow> 'a frame \<Rightarrow> int \<Rightarrow> int \<Rightarrow> panic + 'a frame" where
  "SortReader_resize maxRows sbs spillTarget typ f sz n =
     (if n = 0 then Inl DivideByZero
      else
        (let bytesPerRow = go_div sz n in
         if bytesPerRow = 0 then Inl DivideByZero
         else
           (let targetRows0 = go_div spillTarget bytesPerRow;
                targetRows = (if targetRows0 < int sbs then int sbs else targetRows0)
            in if exceeds_5_percent (frame_Len f - targetRows) targetRows then
                 (if targetRows \<le> frame_Cap f then frame_Slice f 0 targetRows
                  else frame_Make_within maxRows typ targetRows)
               else Inr f)))"

text \<open>
  The loop of \<^verbatim>\<open>SortReader\<close>. \<^verbatim>\<open>g\<close> is a view of \<^verbatim>\<open>f\<close> from its first row, so
  sorting \<^verbatim>\<open>g\<close> in place sorts the first \<open>n\<close> rows of \<^verbatim>\<open>f\<close>. The loop ends with the
  spiller (the \<^verbatim>\<open>break\<close>), with an error or with a panic; \<open>None\<close> is a loop that
  does not end.
\<close>

partial_function (option) SortReader_loop ::
  "('a, 'r, 'sp, 'e) collaborators \<Rightarrow> int \<Rightarrow> 'a \<Rightarrow> 'sp \<Rightarrow> 'a frame \<Rightarrow> 'r \<Rightarrow>
     (panic + ('e error + 'sp)) option" where
  "SortReader_loop c spillTarget typ spill f r =
     (case ReadFull (Reader_Read c) r f of
        None \<Rightarrow> None
      | Some (Inl p) \<Rightarrow> Some (Inl p)
      | Some (Inr ((n, err), r', f1)) \<Rightarrow>
          (case err of
             Some (Other e) \<Rightarrow> Some (Inr (Inl (Other e)))
           | _ \<Rightarrow>
            (case frame_Slice f1 0 n of
               Inl p \<Rightarrow> Some (Inl p)
             | Inr g \<Rightarrow>
                (let g' = g\<lparr>rows := Sorter_Sort c (take (flen g) (rows g)) @ drop (flen g) (rows g)\<rparr>;
                     f2 = f1\<lparr>rows := rows g'\<rparr>
                 in case Spiller_Spill c spill g' of
                      ((sz, Some e), spill') \<Rightarrow> Some (Inr (Inl e))
                    | ((sz, None), spill') \<Rightarrow>
                        if err = Some EOF then Some (Inr (Inr spill'))
                        else
                          (case SortReader_resize (MaxRows c) (SpillBatchSize c) spillTarget
                                  typ f2 sz n of
                             Inl p \<Rightarrow> Some (Inl p)
                           | Inr f3 \<Rightarrow> SortReader_loop c spillTarget typ spill' f3 r')))))"

text \<open>\<^verbatim>\<open>SortReader\<close>; \<^verbatim>\<open>1<<14\<close> is \<open>2 ^ 14\<close>.\<close>

definition SortReader ::
  "('a, 'r, 'sp, 'e) collaborators \<Rightarrow> int \<Rightarrow> 'a \<Rightarrow> 'r \<Rightarrow>
     (panic + ('e error + ('a, 'r, 'e) mergeReader)) option" where
  "SortReader c spillTarget typ r =
     (case NewSpiller c of
        (spill, Some e) \<Rightarrow> Some (Inr (Inl e))
      | (spill, None) \<Rightarrow>
          (case SortReader_loop c spillTarget typ spill (frame_Make typ (2 ^ 14)) r of
             None \<Rightarrow> None
           | Some (Inl p) \<Rightarrow> Some (Inl p)
           | Some (Inr (Inl e)) \<Rightarrow> Some (Inr (Inl e))
           | Some (Inr (Inr spill')) \<Rightarrow>
               (case Spiller_Readers c spill' of
                  (readers, Some e) \<Rightarrow> Some (Inr (Inl e))
                | (readers, None) \<Rightarrow>
                    (case NewMergeReader (Reader_Read c) (Sorter_Less c) typ (SpillBatchSize c)
                            readers of
                       Inl e \<Rightarrow> Some (Inr (Inl e))
                     | Inr m \<Rightarrow> Some (Inr (Inr m))))))"

section \<open>A source of rows for running the definitions\<close>

text \<open>
  A reader over a list of rows held in memory, used to run the definitions above on
  concrete inputs. Each call delivers as many of the pending rows as the frame has
  length for; once no row is pending it returns \<^verbatim>\<open>EOF\<close>, or for ever the error
  \<open>failure\<close> when one is set.
\<close>

datatype ('a, 'e) src = Src (pending: "'a list") (failure: "'e option")

fun src_Read :: "('a, ('a, 'e) src, 'e) Read" where
  "src_Read (Src xs fl) f =
     (if xs = [] then
        (case fl of
           Some e \<Rightarrow> ((0, Some (Other e)), Src [] fl, f)
         | None \<Rightarrow> ((0, Some EOF), Src [] fl, f))
      else
        ((int (min (flen f) (length xs)), None),
         Src (drop (min (flen f) (length xs)) xs) fl,
         f\<lparr>rows := take (min (flen f) (length xs)) xs
                      @ drop (min (flen f) (length xs)) (rows f)\<rparr>))"

text \<open>
  The same source without a failure, with the pending rows as its state.
\<close>

definition list_Read :: "('a, 'a list, 'e) Read" where
  "list_Read xs f = (case src_Read (Src xs None) f of (res, s, f') \<Rightarrow> (res, pending s, f'))"

text \<open>
  Collaborators held in memory: the source above, insertion sort on integers, and
  a spiller that keeps its runs in a list and reports eight bytes per row. The
  second spiller writes its runs packed, eight rows to the byte.
\<close>

definition memory_collaborators :: "(int, int list, int list list, unit) collaborators" where
  "memory_collaborators =
     \<lparr>Reader_Read = list_Read, Sorter_Sort = sort, Sorter_Less = (<),
      NewSpiller = ([], None),
      Spiller_Spill = (\<lambda>sp g. ((8 * int (flen g), None), sp @ [take (flen g) (rows g)])),
      Spiller_Readers = (\<lambda>sp. (sp, None)),
      SpillBatchSize = 2, MaxRows = 2 ^ 30\<rparr>"

definition packed_collaborators :: "(int, int list, int list list, unit) collaborators" where
  "packed_collaborators =
     memory_collaborators
       \<lparr>Spiller_Spill := (\<lambda>sp g. ((int (flen g) div 8, None), sp @ [take (flen g) (rows g)]))\<rparr>"

section \<open>Properties of the reshuffle operator\<close>

text \<open>
  Claim C8. When the combinability check rejects the slice, \<open>Reshuffle\<close> panics with
  the check's message and no node comes back. When the check accepts it,
  \<open>Reshuffle\<close> returns one node; the node's schema is the upstream's schema, it has
  one dependency, that dependency is the upstream slice with the shuffle flag set
  (and neither partitioner nor expansion), and its combiner is absent.
\<close>

theorem Reshuffle_construction:
  "(\<forall>msg. check slice = Some msg \<longrightarrow>
       Reshuffle check mk slice = Inl (TypecheckPanic msg)) \<and>
   (check slice = None \<longrightarrow>
      (\<exists>r. Reshuffle check mk slice = Inr r \<and>
           reshuffleSlice_Type typ_of r = typ_of slice \<and>
           reshuffleSlice_NumDep r = 1 \<and>
           (\<forall>i. (reshuffleSlice_Dep r i :: ('s, 'p) Dep) =
                  \<lparr>dep_Slice = slice, dep_Shuffle = True,
                   dep_Partitioner = None, dep_Expand = False\<rparr>) \<and>
           (reshuffleSlice_Combiner r :: 'f Func) = Func_Nil))"
  by (simp add: Reshuffle_def reshuffleSlice_Type_def reshuffleSlice_NumDep_def
      reshuffleSlice_Dep_def reshuffleSlice_Combiner_def)

theorem Reshuffle_construction_witness:
  "Reshuffle (\<lambda>s. if s = (0::nat) then Some ''bad key'' else None) (\<lambda>s. s) 0
     = Inl (TypecheckPanic ''bad key'') \<and>
   (\<exists>r. Reshuffle (\<lambda>s. if s = (0::nat) then Some ''bad key'' else None) (\<lambda>s. s) 7 = Inr r \<and>
        reshuffleSlice_Type (\<lambda>s. s + 1) r = 8 \<and>
        reshuffleSlice_NumDep r = 1 \<and>
        (\<forall>i. (reshuffleSlice_Dep r i :: (nat, unit) Dep) =
           \<lparr>dep_Slice = 7, dep_Shuffle = True, dep_Partitioner = None, dep_Expand = False\<rparr>) \<and>
        (reshuffleSlice_Combiner r :: unit Func) = Func_Nil)"
  using Reshuffle_construction
    [of "\<lambda>s. if s = (0::nat) then Some ''bad key'' else None" 0 "\<lambda>s. s" "\<lambda>s. s + 1"]
    Reshuffle_construction
    [of "\<lambda>s. if s = (0::nat) then Some ''bad key'' else None" 7 "\<lambda>s. s" "\<lambda>s. s + 1",
     where ?'p = unit and ?'f = unit]
  by simp

text \<open>
  Claim C9. Given exactly one dependency reader, \<open>Reader\<close> returns that reader and
  does not panic; given any other number of readers it panics, reporting the number
  it got.
\<close>

theorem reshuffleSlice_Reader_passthrough:
  "(length deps = 1 \<longrightarrow>
      reshuffleSlice_Reader r shard deps = Inr (hd deps) \<and>
      (\<forall>p. reshuffleSlice_Reader r shard deps \<noteq> Inl p)) \<and>
   (length deps \<noteq> 1 \<longrightarrow>
      reshuffleSlice_Reader r shard deps = Inl (ExpectedOneDep (length deps)))"
  by (cases deps) (simp_all add: reshuffleSlice_Reader_def)

theorem reshuffleSlice_Reader_passthrough_witness:
  "reshuffleSlice_Reader \<lparr>name = ''reshuffle1'', Slice = (5::nat)\<rparr> 3 [42::nat] = Inr 42 \<and>
   reshuffleSlice_Reader \<lparr>name = ''reshuffle1'', Slice = (5::nat)\<rparr> 3 [1, 2::nat]
     = Inl (ExpectedOneDep 2) \<and>
   reshuffleSlice_Reader \<lparr>name = ''reshuffle1'', Slice = (5::nat)\<rparr> 3 ([]::nat list)
     = Inl (ExpectedOneDep 0)"
  using reshuffleSlice_Reader_passthrough
    [of "[42::nat]" "\<lparr>name = ''reshuffle1'', Slice = (5::nat)\<rparr>" 3]
    reshuffleSlice_Reader_passthrough
    [of "[1, 2::nat]" "\<lparr>name = ''reshuffle1'', Slice = (5::nat)\<rparr>" 3]
    reshuffleSlice_Reader_passthrough
    [of "[]::nat list" "\<lparr>name = ''reshuffle1'', Slice = (5::nat)\<rparr>" 3]
  by simp

section \<open>Properties of the partitioned task buffer\<close>

lemma length_batch_rows: "length (batch_rows cols) = length (hd cols)"
  by (simp add: batch_rows_def)

lemma scope_rows_Cons: "scope_rows (cols # bs) = batch_rows cols @ scope_rows bs"
  by (simp add: scope_rows_def)

lemma scope_rows_Nil: "scope_rows [] = []"
  by (simp add: scope_rows_def)

lemma Slice_batches_found:
  "list_all wf_batch bs \<Longrightarrow> n \<le> off \<Longrightarrow> off < n + int (length (scope_rows bs)) \<Longrightarrow>
   \<exists>k < length bs.
      Slice_batches bs off n = Inr (Inl (bs ! k, off - n - int (length (scope_rows (take k bs))))) \<and>
      0 \<le> off - n - int (length (scope_rows (take k bs))) \<and>
      off - n - int (length (scope_rows (take k bs))) < int (length (batch_rows (bs ! k)))"
proof (induction bs arbitrary: n)
  case Nil
  then show ?case by (simp add: scope_rows_Nil)
next
  case (Cons cols bs)
  from Cons.prems(1) obtain c0 cs where cols: "cols = c0 # cs"
    by (cases cols) (auto simp: wf_batch_def)
  show ?case
  proof (cases "n + int (length c0) > off")
    case True
    have "Slice_batches (cols # bs) off n = Inr (Inl (cols, off - n))"
      using True cols by simp
    with True Cons.prems(2) cols show ?thesis
      by (intro exI [of _ 0]) (simp add: scope_rows_Nil length_batch_rows)
  next
    case False
    have sb: "Slice_batches (cols # bs) off n = Slice_batches bs off (n + int (length c0))"
      using False cols by simp
    have "\<exists>k < length bs.
      Slice_batches bs off (n + int (length c0)) =
        Inr (Inl (bs ! k, off - (n + int (length c0)) - int (length (scope_rows (take k bs))))) \<and>
      0 \<le> off - (n + int (length c0)) - int (length (scope_rows (take k bs))) \<and>
      off - (n + int (length c0)) - int (length (scope_rows (take k bs))) < int (length (batch_rows (bs ! k)))"
      using Cons.prems False cols
      by (intro Cons.IH) (simp_all add: scope_rows_Cons length_batch_rows)
    then obtain k where k: "k < length bs"
      "Slice_batches bs off (n + int (length c0)) =
        Inr (Inl (bs ! k, off - (n + int (length c0)) - int (length (scope_rows (take k bs)))))"
      "0 \<le> off - (n + int (length c0)) - int (length (scope_rows (take k bs)))"
      "off - (n + int (length c0)) - int (length (scope_rows (take k bs))) < int (length (batch_rows (bs ! k)))"
      by blast
    show ?thesis
      using k sb cols
      by (intro exI [of _ "Suc k"]) (simp add: scope_rows_Cons length_batch_rows algebra_simps)
  qed
qed

lemma Slice_batches_beyond:
  "list_all wf_batch bs \<Longrightarrow> n + int (length (scope_rows bs)) \<le> off \<Longrightarrow>
   Slice_batches bs off n = Inr (Inr (n + int (length (scope_rows bs))))"
proof (induction bs arbitrary: n)
  case Nil
  then show ?case by (simp add: scope_rows_Nil)
next
  case (Cons cols bs)
  from Cons.prems(1) obtain c0 cs where cols: "cols = c0 # cs"
    by (cases cols) (auto simp: wf_batch_def)
  have "Slice_batches bs off (n + int (length c0)) =
          Inr (Inr (n + int (length c0) + int (length (scope_rows bs))))"
    using Cons.prems cols
    by (intro Cons.IH) (simp_all add: scope_rows_Cons length_batch_rows)
  with Cons.prems cols show ?case
    by (simp add: scope_rows_Cons length_batch_rows)
qed

lemma Slice_batches_append:
  "Slice_batches (xs @ ys) off n =
     (case Slice_batches xs off n of
        Inr (Inr n') \<Rightarrow> Slice_batches ys off n'
      | r \<Rightarrow> r)"
  by (induction xs arbitrary: n) (auto split: list.splits)

declare Slice_partitions.simps [simp del]

lemma Slice_partitions_all:
  "0 \<le> i \<Longrightarrow> i \<le> int (length b) \<Longrightarrow> e = int (length b) \<Longrightarrow>
   Slice_partitions b i e off n = Slice_result (Slice_batches (concat (drop (nat i) b)) off n)"
proof (induction b i e off n rule: Slice_partitions.induct)
  case (1 b i e off n)
  show ?case
  proof (cases "i < e")
    case False
    with 1 show ?thesis
      by (subst Slice_partitions.simps) (simp add: Slice_result_def)
  next
    case True
    with "1.prems" have d: "drop (nat i) b = b ! nat i # drop (nat (i + 1)) b"
      by (simp add: Cons_nth_drop_Suc nat_add_distrib)
    show ?thesis
    proof (cases "Slice_batches (b ! nat i) off n")
      case (Inl p)
      with True "1.prems" d show ?thesis
        by (subst Slice_partitions.simps) (simp add: Slice_batches_append Slice_result_def)
    next
      case (Inr x)
      show ?thesis
      proof (cases x)
        case (Inl r)
        with Inr True "1.prems" d show ?thesis
          by (subst Slice_partitions.simps) (simp add: Slice_batches_append Slice_result_def)
      next
        case (Inr n')
        with \<open>Slice_batches (b ! nat i) off n = Inr x\<close> True "1.prems" d
          "1.IH" [of x n'] show ?thesis
          by (subst Slice_partitions.simps) (simp add: Slice_batches_append)
      qed
    qed
  qed
qed

lemma Slice_partitions_one:
  "0 \<le> i \<Longrightarrow> i < int (length b) \<Longrightarrow>
   Slice_partitions b i (i + 1) off n = Slice_result (Slice_batches (b ! nat i) off n)"
  by (subst Slice_partitions.simps)
    (simp add: Slice_result_def Slice_partitions.simps [of b "i + 1"] split: sum.splits)

lemma taskBuffer_Slice_scope:
  "part = AP \<or> (0 \<le> part \<and> part < int (length b)) \<Longrightarrow>
   taskBuffer_Slice AP b part off = Slice_result (Slice_batches (scope_batches AP b part) off 0)"
proof (cases "part = AP")
  case True
  then show ?thesis
    by (simp add: taskBuffer_Slice_def scope_batches_def Slice_partitions_all)
next
  case False
  moreover assume "part = AP \<or> (0 \<le> part \<and> part < int (length b))"
  ultimately show ?thesis
    by (simp add: taskBuffer_Slice_def scope_batches_def Slice_partitions_one)
qed

lemma concat_nth_offset:
  "k < length xss \<Longrightarrow> l < length (xss ! k) \<Longrightarrow>
   concat xss ! (length (concat (take k xss)) + l) = xss ! k ! l"
proof (induction xss arbitrary: k)
  case Nil
  then show ?case by simp
next
  case (Cons xs xss)
  show ?case
  proof (cases k)
    case 0
    with Cons.prems show ?thesis by (simp add: nth_append)
  next
    case (Suc k')
    with Cons.prems Cons.IH [of k'] show ?thesis
      by (simp add: nth_append add.assoc)
  qed
qed


text \<open>
  Claim C3. In a buffer whose addressed partition exists and whose batches in scope
  are well formed, \<open>Slice\<close> at an offset \<open>off\<close> with \<open>0 \<le> off\<close> below the row count of
  the scope returns the columns of some batch \<open>k\<close> of the scope together with the
  local offset \<open>off\<close> minus the number of rows in the batches before \<open>k\<close>; the local
  offset lies inside that batch, and the row it addresses is row \<open>off\<close> of the rows
  of the scope in the order they were appended. At an offset at or beyond the row
  count, \<open>Slice\<close> returns no columns and the local offset \<open>-1\<close>.
\<close>

theorem taskBuffer_Slice_addresses_row:
  assumes part: "part = AP \<or> (0 \<le> part \<and> part < int (length b))"
    and wf: "list_all wf_batch (scope_batches AP b part)"
  shows "(0 \<le> off \<and> off < int (length (scope_rows (scope_batches AP b part))) \<longrightarrow>
           (\<exists>k l. k < length (scope_batches AP b part) \<and>
              l = off - int (length (scope_rows (take k (scope_batches AP b part)))) \<and>
              taskBuffer_Slice AP b part off = Inr (scope_batches AP b part ! k, l) \<and>
              0 \<le> l \<and> l < int (length (batch_rows (scope_batches AP b part ! k))) \<and>
              batch_rows (scope_batches AP b part ! k) ! nat l
                = scope_rows (scope_batches AP b part) ! nat off)) \<and>
         (int (length (scope_rows (scope_batches AP b part))) \<le> off \<longrightarrow>
            taskBuffer_Slice AP b part off = Inr ([], - 1))"
proof (intro conjI impI)
  define bs where "bs = scope_batches AP b part"
  assume off: "0 \<le> off \<and> off < int (length (scope_rows bs))"
  with wf obtain k where k: "k < length bs"
    and res: "Slice_batches bs off 0 = Inr (Inl (bs ! k, off - 0 - int (length (scope_rows (take k bs)))))"
    and lo: "0 \<le> off - 0 - int (length (scope_rows (take k bs)))"
    and hi: "off - 0 - int (length (scope_rows (take k bs))) < int (length (batch_rows (bs ! k)))"
    using Slice_batches_found [of bs 0 off] unfolding bs_def by auto
  define l where "l = off - int (length (scope_rows (take k bs)))"
  have sl: "taskBuffer_Slice AP b part off = Inr (bs ! k, l)"
    using taskBuffer_Slice_scope [OF part, of off] res
    by (simp add: bs_def l_def Slice_result_def)
  have off_eq: "nat off = length (concat (take k (map batch_rows bs))) + nat l"
    using lo off by (simp add: l_def scope_rows_def take_map)
  have "concat (map batch_rows bs) ! (length (concat (take k (map batch_rows bs))) + nat l)
          = map batch_rows bs ! k ! nat l"
    using k hi lo by (intro concat_nth_offset) (simp_all add: l_def)
  then have row: "batch_rows (bs ! k) ! nat l = scope_rows bs ! nat off"
    using k off_eq by (simp add: scope_rows_def)
  show "\<exists>k l. k < length bs \<and>
              l = off - int (length (scope_rows (take k bs))) \<and>
              taskBuffer_Slice AP b part off = Inr (bs ! k, l) \<and>
              0 \<le> l \<and> l < int (length (batch_rows (bs ! k))) \<and>
              batch_rows (bs ! k) ! nat l = scope_rows bs ! nat off"
    using k sl lo hi row by (intro exI [of _ k] exI [of _ l]) (simp add: l_def)
next
  assume "int (length (scope_rows (scope_batches AP b part))) \<le> off"
  with wf have "Slice_batches (scope_batches AP b part) off 0
      = Inr (Inr (0 + int (length (scope_rows (scope_batches AP b part)))))"
    by (intro Slice_batches_beyond) simp_all
  then show "taskBuffer_Slice AP b part off = Inr ([], - 1)"
    using taskBuffer_Slice_scope [OF part, of off] by (simp add: Slice_result_def)
qed

theorem taskBuffer_Slice_addresses_row_witness:
  "taskBuffer_Slice (- 1) [[[[1, 2], [10, 20]], [[3], [30::int]]], [[[4, 5, 6], [40, 50, 60]]]] 0 2
     = Inr ([[3], [30]], 0) \<and>
   batch_rows [[3], [30::int]] ! 0 = [3, 30] \<and>
   scope_rows [[[1, 2], [10, 20]], [[3], [30::int]]] ! 2 = [3, 30] \<and>
   taskBuffer_Slice (- 1) [[[[1, 2], [10, 20]], [[3], [30::int]]], [[[4, 5, 6], [40, 50, 60]]]] 0 3
     = Inr ([], - 1) \<and>
   taskBuffer_Slice (- 1) [[[[1, 2], [10, 20]], [[3], [30::int]]], [[[4, 5, 6], [40, 50, 60]]]] (- 1) 5
     = Inr ([[4, 5, 6], [40, 50, 60]], 2)"
  using taskBuffer_Slice_addresses_row
    [of 0 "- 1" "[[[[1, 2], [10, 20]], [[3], [30::int]]], [[[4, 5, 6], [40, 50, 60]]]]" 2]
    taskBuffer_Slice_addresses_row
    [of 0 "- 1" "[[[[1, 2], [10, 20]], [[3], [30::int]]], [[[4, 5, 6], [40, 50, 60]]]]" 3]
  by (simp add: taskBuffer_Slice_def Slice_partitions.simps batch_rows_def scope_rows_def)

section \<open>Properties of the read-ahead buffer\<close>

text \<open>
  Claim C5, as the code has it. \<open>Fill\<close> hands the source the window at full capacity
  (the frame itself when its length is its capacity already) and stores the frame,
  the source and the number of rows that come back, and counts the fill. The result
  is \<^verbatim>\<open>nil\<close> for \<^verbatim>\<open>EOF\<close> with at least one row and for no error with rows,
  \<^verbatim>\<open>EOF\<close> for zero rows with no error and for \<^verbatim>\<open>EOF\<close> without rows, and any other
  error as the source gave it. The read offset becomes zero when the source
  returned no error or \<^verbatim>\<open>EOF\<close>; on any other error it keeps its value.
\<close>

theorem FrameBuffer_Fill_outcome:
  assumes "rd (Reader f)
             (if frame_Len (Frame f) < frame_Cap (Frame f)
              then (Frame f)\<lparr>flen := length (rows (Frame f))\<rparr> else Frame f)
           = ((n, err), r', fr')"
  shows "Frame (fst (FrameBuffer_Fill rd f)) = fr' \<and>
         Reader (fst (FrameBuffer_Fill rd f)) = r' \<and>
         Len (fst (FrameBuffer_Fill rd f)) = n \<and>
         N (fst (FrameBuffer_Fill rd f)) = N f + 1 \<and>
         Off (fst (FrameBuffer_Fill rd f)) = (if err = None \<or> err = Some EOF then 0 else Off f) \<and>
         snd (FrameBuffer_Fill rd f) =
           (case err of
              None \<Rightarrow> if n = 0 then Some EOF else None
            | Some EOF \<Rightarrow> if n > 0 then None else Some EOF
            | Some (Other e) \<Rightarrow> Some (Other e))"
proof -
  have v: "(case frame_Slice (Frame f) 0 (frame_Cap (Frame f)) of Inr v \<Rightarrow> v | Inl p \<Rightarrow> Frame f)
           = (Frame f)\<lparr>flen := length (rows (Frame f))\<rparr>"
    by (simp add: frame_Slice_def frame_Cap_def)
  show ?thesis
    using assms unfolding FrameBuffer_Fill_def v
    by (cases err) (auto simp: Let_def split: error.splits)
qed

theorem FrameBuffer_Fill_outcome_witness:
  "FrameBuffer_Fill src_Read
     \<lparr>Frame = \<lparr>rows = [0, 0, 0::nat], flen = 1\<rparr>, Reader = Src [7, 8] (None :: unit option),
      Off = 1, Len = 1, Index = 0, N = 4\<rparr>
   = (\<lparr>Frame = \<lparr>rows = [7, 8, 0], flen = 3\<rparr>, Reader = Src [] None,
       Off = 0, Len = 2, Index = 0, N = 5\<rparr>, None)"
  using FrameBuffer_Fill_outcome
    [of src_Read
        "\<lparr>Frame = \<lparr>rows = [0, 0, 0::nat], flen = 1\<rparr>, Reader = Src [7, 8] (None :: unit option),
          Off = 1, Len = 1, Index = 0, N = 4\<rparr>"
        2 None "Src [] None" "\<lparr>rows = [7, 8, 0], flen = 3\<rparr>"]
  by (simp add: frame_Len_def frame_Cap_def FrameBuffer_Fill_def frame_Slice_def)

text \<open>
  The claim as stated has \<open>Fill\<close> reset the read offset on every call. With a source
  that fails, the offset \<open>2\<close> of the buffer is still \<open>2\<close> after the call.
\<close>

theorem FrameBuffer_Fill_offset_counterexample:
  "snd (FrameBuffer_Fill src_Read
     \<lparr>Frame = \<lparr>rows = [7, 8::nat], flen = 2\<rparr>, Reader = Src [] (Some ''disk''),
      Off = 2, Len = 2, Index = 0, N = 1\<rparr>) = Some (Other ''disk'') \<and>
   Off (fst (FrameBuffer_Fill src_Read
     \<lparr>Frame = \<lparr>rows = [7, 8::nat], flen = 2\<rparr>, Reader = Src [] (Some ''disk''),
      Off = 2, Len = 2, Index = 0, N = 1\<rparr>)) = 2"
  by (simp add: FrameBuffer_Fill_def frame_Len_def frame_Cap_def)

section \<open>Properties of the readers\<close>

declare Read_loop.simps [simp del]
declare tbr_seek.simps [simp del]

lemma Read_step_error:
  "Read_step rd sless h out n = Inr (h', out', n', Some e) \<Longrightarrow> \<exists>x. e = Other x"
  by (auto simp: Read_step_def Let_def
      split: sum.splits if_splits prod.splits option.splits error.splits)

lemma Read_loop_result:
  "Read_loop rd sless h out n mx = Inr (h', out', n', e) \<Longrightarrow>
   n \<le> n' \<and> (e \<noteq> None \<longrightarrow> n < n' \<and> (\<exists>x. e = Some (Other x)))"
proof (induction rd sless h out n mx rule: Read_loop.induct)
  case (1 rd sless h out n mx)
  show ?case
  proof (cases "n < mx \<and> length h > 0")
    case False
    with "1.prems" show ?thesis
      by (subst (asm) Read_loop.simps) auto
  next
    case True
    show ?thesis
    proof (cases "Read_step rd sless h out n")
      case (Inl p)
      with True "1.prems" show ?thesis
        by (subst (asm) Read_loop.simps) simp
    next
      case (Inr x)
      then obtain h1 out1 n1 e1 where st: "Read_step rd sless h out n = Inr (h1, out1, n1, e1)"
        by (cases x) auto
      have n1: "n1 = n + 1" using st by (rule Read_step_counter)
      show ?thesis
      proof (cases e1)
        case None
        with True st "1.prems" have "Read_loop rd sless h1 out1 n1 mx = Inr (h', out', n', e)"
          by (subst (asm) Read_loop.simps) simp
        from "1.IH" [OF True st refl refl refl None this] n1 show ?thesis by auto
      next
        case (Some y)
        with True st "1.prems" have "h' = h1 \<and> out' = out1 \<and> n' = n1 \<and> e = Some y"
          by (subst (asm) Read_loop.simps) simp
        with n1 Read_step_error [of rd sless h out n h1 out1 n1 y] st Some show ?thesis by auto
      qed
    qed
  qed
qed

lemma Read_loop_zero:
  "mx \<le> n \<Longrightarrow> Read_loop rd sless h out n mx = Inr (h, out, n, None)"
  by (subst Read_loop.simps) simp

lemma failing_reader_Read:
  "mergeReader_Read src_Read (<)
     \<lparr>m_err = None,
      m_heap = [\<lparr>Frame = \<lparr>rows = [1, 0], flen = 2\<rparr>, Reader = Src [] (Some ''disk''),
                 Off = 0, Len = 1, Index = 0, N = 1\<rparr>]\<rparr>
     \<lparr>rows = [0, 0::int], flen = 2\<rparr>
   = Inr ((0, Some (Other ''disk'')),
          \<lparr>m_err = Some (Other ''disk''),
           m_heap = [\<lparr>Frame = \<lparr>rows = [1, 0], flen = 2\<rparr>, Reader = Src [] (Some ''disk''),
                      Off = 1, Len = 0, Index = 0, N = 2\<rparr>]\<rparr>,
          \<lparr>rows = [1, 0], flen = 2\<rparr>)"
  by (simp add: mergeReader_Read_def Read_loop.simps Read_step_def FrameBuffer_Fill_def
      frame_Len_def frame_Cap_def frame_CopyIndex_def frame_SetIndex_def)

lemma failing_reader_New:
  "NewMergeReader src_Read (<) 0 2 [Src [1::int] (Some ''disk'')]
   = Inr \<lparr>m_err = None,
          m_heap = [\<lparr>Frame = \<lparr>rows = [1, 0], flen = 2\<rparr>, Reader = Src [] (Some ''disk''),
                     Off = 0, Len = 1, Index = 0, N = 1\<rparr>]\<rparr>"
  by (simp add: NewMergeReader_def FrameBuffer_Fill_def frame_Make_def frame_Len_def frame_Cap_def
      heap_Init_def numeral_2_eq_2)

text \<open>
  Claim C10, as the code has it. A \<open>Read\<close> into a destination of length zero
  copies no row and leaves the heap, with the rows buffered in it, as it was. On a
  merge reader that has recorded no error it returns the count \<open>0\<close> with \<^verbatim>\<open>EOF\<close>
  and records \<^verbatim>\<open>EOF\<close>; on a merge reader that has recorded an error, by the test
  \<^verbatim>\<open>m.err != nil\<close> that opens \<open>Read\<close>, it returns the count \<open>0\<close> with the error
  recorded, which stays recorded. In both cases every later \<open>Read\<close>, into any
  destination, returns \<open>0\<close> with the same error and changes neither the reader nor
  the destination, so that the buffered rows are never delivered.
\<close>

theorem mergeReader_Read_empty_destination:
  assumes "frame_Len out = 0"
  shows "mergeReader_Read rd sless m out
           = Inr ((0, Some (case m_err m of None \<Rightarrow> EOF | Some x \<Rightarrow> x)),
                  m\<lparr>m_err := Some (case m_err m of None \<Rightarrow> EOF | Some x \<Rightarrow> x)\<rparr>, out) \<and>
         m_heap (m\<lparr>m_err := Some (case m_err m of None \<Rightarrow> EOF | Some x \<Rightarrow> x)\<rparr>) = m_heap m \<and>
         (\<forall>out2. mergeReader_Read rd sless
                    (m\<lparr>m_err := Some (case m_err m of None \<Rightarrow> EOF | Some x \<Rightarrow> x)\<rparr>) out2
                   = Inr ((0, Some (case m_err m of None \<Rightarrow> EOF | Some x \<Rightarrow> x)),
                          m\<lparr>m_err := Some (case m_err m of None \<Rightarrow> EOF | Some x \<Rightarrow> x)\<rparr>, out2))"
proof (cases "m_err m")
  case None
  with assms show ?thesis
    by (simp add: mergeReader_Read_def Read_loop_zero)
next
  case (Some x)
  then have "m\<lparr>m_err := Some x\<rparr> = m" by simp
  with Some show ?thesis
    by (simp add: mergeReader_Read_def)
qed

theorem mergeReader_Read_empty_destination_witness:
  "mergeReader_Read src_Read (<)
     \<lparr>m_err = None,
      m_heap = [\<lparr>Frame = \<lparr>rows = [1, 2], flen = 2\<rparr>, Reader = Src [3] (None :: unit option),
                 Off = 0, Len = 2, Index = 0, N = 1\<rparr>]\<rparr>
     \<lparr>rows = [], flen = 0\<rparr>
   = Inr ((0, Some EOF),
          \<lparr>m_err = Some EOF,
           m_heap = [\<lparr>Frame = \<lparr>rows = [1, 2::nat], flen = 2\<rparr>, Reader = Src [3] None,
                      Off = 0, Len = 2, Index = 0, N = 1\<rparr>]\<rparr>,
          \<lparr>rows = [], flen = 0\<rparr>) \<and>
   mergeReader_Read src_Read (<)
     \<lparr>m_err = Some EOF,
      m_heap = [\<lparr>Frame = \<lparr>rows = [1, 2], flen = 2\<rparr>, Reader = Src [3] (None :: unit option),
                 Off = 0, Len = 2, Index = 0, N = 1\<rparr>]\<rparr>
     \<lparr>rows = [0, 0, 0], flen = 3\<rparr>
   = Inr ((0, Some EOF),
          \<lparr>m_err = Some EOF,
           m_heap = [\<lparr>Frame = \<lparr>rows = [1, 2::nat], flen = 2\<rparr>, Reader = Src [3] None,
                      Off = 0, Len = 2, Index = 0, N = 1\<rparr>]\<rparr>,
          \<lparr>rows = [0, 0, 0], flen = 3\<rparr>) \<and>
   mergeReader_Read src_Read (<)
     \<lparr>m_err = Some (Other ''disk''),
      m_heap = [\<lparr>Frame = \<lparr>rows = [5, 6::int], flen = 2\<rparr>, Reader = Src [] (Some ''disk''),
                 Off = 0, Len = 2, Index = 0, N = 1\<rparr>]\<rparr>
     \<lparr>rows = [], flen = 0\<rparr>
   = Inr ((0, Some (Other ''disk'')),
          \<lparr>m_err = Some (Other ''disk''),
           m_heap = [\<lparr>Frame = \<lparr>rows = [5, 6], flen = 2\<rparr>, Reader = Src [] (Some ''disk''),
                      Off = 0, Len = 2, Index = 0, N = 1\<rparr>]\<rparr>,
          \<lparr>rows = [], flen = 0\<rparr>)"
  using mergeReader_Read_empty_destination
    [of "\<lparr>rows = [], flen = 0\<rparr>" src_Read "(<)"
        "\<lparr>m_err = None,
          m_heap = [\<lparr>Frame = \<lparr>rows = [1, 2::nat], flen = 2\<rparr>, Reader = Src [3] (None :: unit option),
                     Off = 0, Len = 2, Index = 0, N = 1\<rparr>]\<rparr>"]
    mergeReader_Read_empty_destination
    [of "\<lparr>rows = [], flen = 0\<rparr>" src_Read "(<)"
        "\<lparr>m_err = Some (Other ''disk''),
          m_heap = [\<lparr>Frame = \<lparr>rows = [5, 6::int], flen = 2\<rparr>, Reader = Src [] (Some ''disk''),
                     Off = 0, Len = 2, Index = 0, N = 1\<rparr>]\<rparr>"]
  by (simp add: frame_Len_def)

text \<open>
  The claim as stated has every merge reader that holds unread rows return \<^verbatim>\<open>EOF\<close>
  on a destination of length zero. A merge reader over two sources, the first of
  which delivers the row \<open>1\<close> and then fails, records the failure during its first
  \<open>Read\<close> while the rows \<open>5\<close> and \<open>6\<close> of the second source are still unread in its
  heap; a \<open>Read\<close> into a destination of length zero then returns the failure, and
  not \<^verbatim>\<open>EOF\<close>.
\<close>

theorem mergeReader_Read_empty_destination_counterexample:
  "NewMergeReader src_Read (<) 0 2 [Src [1::int] (Some ''disk''), Src [5, 6] None]
   = Inr \<lparr>m_err = None,
          m_heap = [\<lparr>Frame = \<lparr>rows = [1, 0], flen = 2\<rparr>, Reader = Src [] (Some ''disk''),
                     Off = 0, Len = 1, Index = 0, N = 1\<rparr>,
                    \<lparr>Frame = \<lparr>rows = [5, 6], flen = 2\<rparr>, Reader = Src [] None,
                     Off = 0, Len = 2, Index = 0, N = 1\<rparr>]\<rparr> \<and>
   mergeReader_Read src_Read (<)
     \<lparr>m_err = None,
      m_heap = [\<lparr>Frame = \<lparr>rows = [1, 0], flen = 2\<rparr>, Reader = Src [] (Some ''disk''),
                 Off = 0, Len = 1, Index = 0, N = 1\<rparr>,
                \<lparr>Frame = \<lparr>rows = [5, 6], flen = 2\<rparr>, Reader = Src [] None,
                 Off = 0, Len = 2, Index = 0, N = 1\<rparr>]\<rparr>
     \<lparr>rows = [0, 0], flen = 2\<rparr>
   = Inr ((0, Some (Other ''disk'')),
          \<lparr>m_err = Some (Other ''disk''),
           m_heap = [\<lparr>Frame = \<lparr>rows = [1, 0], flen = 2\<rparr>, Reader = Src [] (Some ''disk''),
                      Off = 1, Len = 0, Index = 0, N = 2\<rparr>,
                     \<lparr>Frame = \<lparr>rows = [5, 6], flen = 2\<rparr>, Reader = Src [] None,
                      Off = 0, Len = 2, Index = 0, N = 1\<rparr>]\<rparr>,
          \<lparr>rows = [1, 0], flen = 2\<rparr>) \<and>
   mergeReader_Read src_Read (<)
     \<lparr>m_err = Some (Other ''disk''),
      m_heap = [\<lparr>Frame = \<lparr>rows = [1, 0], flen = 2\<rparr>, Reader = Src [] (Some ''disk''),
                 Off = 1, Len = 0, Index = 0, N = 2\<rparr>,
                \<lparr>Frame = \<lparr>rows = [5, 6::int], flen = 2\<rparr>, Reader = Src [] None,
                 Off = 0, Len = 2, Index = 0, N = 1\<rparr>]\<rparr>
     \<lparr>rows = [], flen = 0\<rparr>
   = Inr ((0, Some (Other ''disk'')),
          \<lparr>m_err = Some (Other ''disk''),
           m_heap = [\<lparr>Frame = \<lparr>rows = [1, 0], flen = 2\<rparr>, Reader = Src [] (Some ''disk''),
                      Off = 1, Len = 0, Index = 0, N = 2\<rparr>,
                     \<lparr>Frame = \<lparr>rows = [5, 6], flen = 2\<rparr>, Reader = Src [] None,
                      Off = 0, Len = 2, Index = 0, N = 1\<rparr>]\<rparr>,
          \<lparr>rows = [], flen = 0\<rparr>)"
  by (simp add: NewMergeReader_def mergeReader_Read_def Read_loop.simps Read_step_def
      FrameBuffer_Fill_def frame_Make_def frame_Len_def frame_Cap_def frame_CopyIndex_def
      frame_SetIndex_def heap_Init_def heap_down_def heap_down_loop.simps FrameBuffer_less_def
      numeral_2_eq_2)

lemma tbr_seek_EOF:
  "tbr_seek r = Inr (True, r') \<Longrightarrow> int (length (tbr_q r')) = tbr_i r'"
proof (induction r rule: tbr_seek.induct)
  case (1 r)
  from "1.prems" show ?case
    by (subst (asm) tbr_seek.simps) (auto split: if_splits intro: "1.IH")
qed

lemma tbr_seek_at_end:
  "int (length (tbr_q r)) = tbr_i r \<Longrightarrow> tbr_seek r = Inr (True, r)"
  by (subst tbr_seek.simps) simp

lemma taskBufferReader_Read_error:
  assumes "taskBufferReader_Read r cols = Inr ((k, Some y), r', cols')"
  shows "y = EOF \<and> k = 0 \<and> int (length (tbr_q r')) = tbr_i r'"
proof (cases "tbr_seek r")
  case (Inl p)
  with assms show ?thesis by (simp add: taskBufferReader_Read_def)
next
  case (Inr x)
  obtain eof r1 where x: "x = (eof, r1)" by (cases x)
  show ?thesis
  proof (cases eof)
    case True
    with Inr x assms tbr_seek_EOF [of r r1] show ?thesis
      by (auto simp: taskBufferReader_Read_def)
  next
    case False
    with Inr x assms show ?thesis
      by (auto simp: taskBufferReader_Read_def Let_def split: if_splits sum.splits)
  qed
qed

lemma mergeReader_Read_error:
  assumes "mergeReader_Read rd sless m out = Inr ((k, Some x), m', out')"
  shows "m_err m' = Some x"
proof (cases "m_err m = None")
  case False
  with assms show ?thesis by (auto simp: mergeReader_Read_def)
next
  case True
  with assms show ?thesis
    by (auto simp: mergeReader_Read_def Let_def
        split: sum.splits prod.splits option.splits if_splits)
qed

text \<open>
  Claim C6. When a \<open>Read\<close> of a merge reader returns an error \<open>x\<close>, be it \<^verbatim>\<open>EOF\<close> or
  another error, a \<open>Read\<close> of the reader it leaves returns the count \<open>0\<close> with the
  same \<open>x\<close> and leaves the reader and the destination unchanged, so that the same
  holds for every call after it. A \<open>Read\<close> of a task-buffer reader returns no error
  but \<^verbatim>\<open>EOF\<close>, and after it every \<open>Read\<close> returns \<open>0\<close> with \<^verbatim>\<open>EOF\<close> again, without a
  panic and without a change of the reader.
\<close>

theorem readers_repeat_error:
  "(mergeReader_Read rd sless m out = Inr ((k, Some x), m', out') \<longrightarrow>
      (\<forall>out2. mergeReader_Read rd sless m' out2 = Inr ((0, Some x), m', out2))) \<and>
   (taskBufferReader_Read r cols = Inr ((k2, Some (y :: 'e error)), r', cols') \<longrightarrow>
      y = EOF \<and>
      (\<forall>cols2. taskBufferReader_Read r' cols2 = Inr ((0, Some (EOF :: 'e error)), r', cols2)))"
proof (intro conjI impI allI)
  fix out2
  assume "mergeReader_Read rd sless m out = Inr ((k, Some x), m', out')"
  then have "m_err m' = Some x" by (rule mergeReader_Read_error)
  then show "mergeReader_Read rd sless m' out2 = Inr ((0, Some x), m', out2)"
    by (simp add: mergeReader_Read_def)
next
  assume a: "taskBufferReader_Read r cols = Inr ((k2, Some y), r', cols')"
  from taskBufferReader_Read_error [OF a] show "y = EOF" by simp
  fix cols2
  from taskBufferReader_Read_error [OF a] have "tbr_seek r' = Inr (True, r')"
    by (intro tbr_seek_at_end) simp
  then show "taskBufferReader_Read r' cols2 = Inr ((0, Some (EOF :: 'e error)), r', cols2)"
    by (simp add: taskBufferReader_Read_def)
qed


lemma tbr_at_end_Read:
  "taskBufferReader_Read \<lparr>tbr_q = [[[[1, 2::int]]]], tbr_i = 0, tbr_j = 0, tbr_k = 2\<rparr> [[0, 0]]
   = Inr ((0, Some (EOF :: unit error)),
          \<lparr>tbr_q = [[[[1, 2]]]], tbr_i = 1, tbr_j = 0, tbr_k = 0\<rparr>, [[0, 0]])"
  by (simp add: taskBufferReader_Read_def tbr_seek.simps)

theorem readers_repeat_error_witness:
  "mergeReader_Read src_Read (<)
     \<lparr>m_err = Some (Other ''disk''),
      m_heap = [\<lparr>Frame = \<lparr>rows = [1, 0], flen = 2\<rparr>, Reader = Src [] (Some ''disk''),
                 Off = 1, Len = 0, Index = 0, N = 2\<rparr>]\<rparr>
     \<lparr>rows = [5, 5, 5::int], flen = 3\<rparr>
   = Inr ((0, Some (Other ''disk'')),
          \<lparr>m_err = Some (Other ''disk''),
           m_heap = [\<lparr>Frame = \<lparr>rows = [1, 0], flen = 2\<rparr>, Reader = Src [] (Some ''disk''),
                      Off = 1, Len = 0, Index = 0, N = 2\<rparr>]\<rparr>,
          \<lparr>rows = [5, 5, 5], flen = 3\<rparr>) \<and>
   taskBufferReader_Read \<lparr>tbr_q = [[[[1, 2::int]]]], tbr_i = 1, tbr_j = 0, tbr_k = 0\<rparr> [[7]]
   = Inr ((0, Some (EOF :: unit error)),
          \<lparr>tbr_q = [[[[1, 2]]]], tbr_i = 1, tbr_j = 0, tbr_k = 0\<rparr>, [[7]])"
  using readers_repeat_error
    [of src_Read "(<)"
        "\<lparr>m_err = None,
          m_heap = [\<lparr>Frame = \<lparr>rows = [1, 0], flen = 2\<rparr>, Reader = Src [] (Some ''disk''),
                     Off = 0, Len = 1, Index = 0, N = 1\<rparr>]\<rparr>"
        "\<lparr>rows = [0, 0::int], flen = 2\<rparr>" 0 "Other ''disk''"
        "\<lparr>m_err = Some (Other ''disk''),
          m_heap = [\<lparr>Frame = \<lparr>rows = [1, 0], flen = 2\<rparr>, Reader = Src [] (Some ''disk''),
                     Off = 1, Len = 0, Index = 0, N = 2\<rparr>]\<rparr>"
        "\<lparr>rows = [1, 0], flen = 2\<rparr>"
        "\<lparr>tbr_q = [[[[1, 2::int]]]], tbr_i = 0, tbr_j = 0, tbr_k = 2\<rparr>" "[[0, 0]]" 0
        "EOF :: unit error"
        "\<lparr>tbr_q = [[[[1, 2]]]], tbr_i = 1, tbr_j = 0, tbr_k = 0\<rparr>" "[[0, 0]]"]
    failing_reader_Read tbr_at_end_Read
  by simp

section \<open>Properties of the heap\<close>

declare heap_down_loop.simps [simp del]
declare heap_up.simps [simp del]

lemma swo_asym: "strict_weak_order lt \<Longrightarrow> lt x y \<Longrightarrow> \<not> lt y x"
  unfolding strict_weak_order_def by blast

lemma swo_trans: "strict_weak_order lt \<Longrightarrow> \<not> lt x y \<Longrightarrow> \<not> lt y z \<Longrightarrow> \<not> lt x z"
  unfolding strict_weak_order_def by blast

lemma swo_irrefl: "strict_weak_order lt \<Longrightarrow> \<not> lt x x"
  unfolding strict_weak_order_def by blast

lemma child_iff: "0 < (j::nat) \<Longrightarrow> ((j - 1) div 2 = i) = (j = 2 * i + 1 \<or> j = 2 * i + 2)"
  by arith

lemma heap_Swap_length [simp]: "length (heap_Swap h i j) = length h"
  by (simp add: heap_Swap_def)

lemma heap_Swap_mset: "i < length h \<Longrightarrow> j < length h \<Longrightarrow> mset (heap_Swap h i j) = mset h"
  by (simp add: heap_Swap_def mset_swap)

lemma heap_Swap_nth:
  "i < length h \<Longrightarrow> j < length h \<Longrightarrow>
   heap_Swap h i j ! k = (if k = j then h ! i else if k = i then h ! j else h ! k)"
  by (auto simp: heap_Swap_def nth_list_update)

lemma heap_down_loop_frame:
  "n \<le> length h \<Longrightarrow>
   length (fst (heap_down_loop lt h i n)) = length h \<and>
   mset (fst (heap_down_loop lt h i n)) = mset h \<and>
   (\<forall>k. n \<le> k \<or> k < i \<longrightarrow> fst (heap_down_loop lt h i n) ! k = h ! k) \<and>
   i \<le> snd (heap_down_loop lt h i n)"
proof (induction lt h i n rule: heap_down_loop.induct)
  case (1 lt h i n)
  show ?case
  proof (cases "2 * i + 1 \<ge> n")
    case True
    then have "heap_down_loop lt h i n = (h, i)"
      by (subst heap_down_loop.simps) simp
    then show ?thesis by simp
  next
    case False
    define j where "j = (if 2 * i + 2 < n \<and> lt (h ! (2 * i + 2)) (h ! (2 * i + 1))
                  then 2 * i + 2 else 2 * i + 1)"
    have j: "i < j" "j < n" using False by (simp_all add: j_def)
    show ?thesis
    proof (cases "lt (h ! j) (h ! i)")
      case False
      with \<open>\<not> 2 * i + 1 \<ge> n\<close> have "heap_down_loop lt h i n = (h, i)"
        by (subst heap_down_loop.simps) (simp add: j_def Let_def)
      then show ?thesis by simp
    next
      case True
      have eq: "heap_down_loop lt h i n = heap_down_loop lt (heap_Swap h i j) j n"
        using True \<open>\<not> 2 * i + 1 \<ge> n\<close>
        by (subst heap_down_loop.simps) (simp add: j_def Let_def)
      have IH: "length (fst (heap_down_loop lt (heap_Swap h i j) j n)) = length (heap_Swap h i j) \<and>
        mset (fst (heap_down_loop lt (heap_Swap h i j) j n)) = mset (heap_Swap h i j) \<and>
        (\<forall>k. n \<le> k \<or> k < j \<longrightarrow> fst (heap_down_loop lt (heap_Swap h i j) j n) ! k = heap_Swap h i j ! k) \<and>
        j \<le> snd (heap_down_loop lt (heap_Swap h i j) j n)"
        using "1.IH" [OF \<open>\<not> 2 * i + 1 \<ge> n\<close> j_def] True "1.prems" by simp
      have il: "i < length h" "j < length h" using j "1.prems" by auto
      have "\<forall>k. n \<le> k \<or> k < i \<longrightarrow> heap_Swap h i j ! k = h ! k"
        using il j by (simp add: heap_Swap_nth)
      with IH j il show ?thesis
        unfolding eq by (simp add: heap_Swap_mset)
    qed
  qed
qed

lemma heap_down_loop_heap:
  "strict_weak_order lt \<Longrightarrow> n \<le> length h \<Longrightarrow> lo \<le> i \<Longrightarrow> heap_except lt h n lo i \<Longrightarrow>
   heap_from lt (fst (heap_down_loop lt h i n)) n lo"
proof (induction lt h i n rule: heap_down_loop.induct)
  case (1 lt h i n)
  note swo = \<open>strict_weak_order lt\<close>
  note ex = \<open>heap_except lt h n lo i\<close>
  from ex have exa: "\<And>c. 0 < c \<Longrightarrow> c < n \<Longrightarrow> lo \<le> (c - 1) div 2 \<Longrightarrow> (c - 1) div 2 \<noteq> i \<Longrightarrow>
      \<not> lt (h ! c) (h ! ((c - 1) div 2))"
    by (simp add: heap_except_def)
  from ex have exb: "\<And>c. 0 < c \<Longrightarrow> c < n \<Longrightarrow> (c - 1) div 2 = i \<Longrightarrow> 0 < i \<Longrightarrow> lo \<le> (i - 1) div 2 \<Longrightarrow>
      \<not> lt (h ! c) (h ! ((i - 1) div 2))"
    by (simp add: heap_except_def)
  show ?case
  proof (cases "2 * i + 1 \<ge> n")
    case True
    have "heap_from lt h n lo"
      unfolding heap_from_def
    proof (intro allI impI)
      fix c assume c: "0 < c \<and> c < n \<and> lo \<le> (c - 1) div 2"
      with True have "(c - 1) div 2 \<noteq> i" by arith
      with c show "\<not> lt (h ! c) (h ! ((c - 1) div 2))" by (intro exa) auto
    qed
    with True show ?thesis by (subst heap_down_loop.simps) simp
  next
    case False
    define j where "j = (if 2 * i + 2 < n \<and> lt (h ! (2 * i + 2)) (h ! (2 * i + 1))
                  then 2 * i + 2 else 2 * i + 1)"
    have j: "i < j" "j < n" "0 < j" "(j - 1) div 2 = i" using False by (simp_all add: j_def)
    have sib: "\<And>c. 0 < c \<Longrightarrow> c < n \<Longrightarrow> (c - 1) div 2 = i \<Longrightarrow> c \<noteq> j \<Longrightarrow> \<not> lt (h ! c) (h ! j)"
    proof -
      fix c assume c: "0 < c" "c < n" "(c - 1) div 2 = i" "c \<noteq> j"
      then have cc: "c = 2 * i + 1 \<or> c = 2 * i + 2" by arith
      show "\<not> lt (h ! c) (h ! j)"
      proof (cases "2 * i + 2 < n \<and> lt (h ! (2 * i + 2)) (h ! (2 * i + 1))")
        case True
        then have "j = 2 * i + 2" by (simp add: j_def)
        with cc c have "c = 2 * i + 1" by simp
        with True \<open>j = 2 * i + 2\<close> swo_asym [OF swo, of "h ! (2 * i + 2)" "h ! (2 * i + 1)"]
        show ?thesis by simp
      next
        case False
        then have "j = 2 * i + 1" by (simp add: j_def)
        with cc c have "c = 2 * i + 2" by simp
        with False c \<open>j = 2 * i + 1\<close> show ?thesis by simp
      qed
    qed
    show ?thesis
    proof (cases "lt (h ! j) (h ! i)")
      case False
      have "heap_from lt h n lo"
        unfolding heap_from_def
      proof (intro allI impI)
        fix c assume c: "0 < c \<and> c < n \<and> lo \<le> (c - 1) div 2"
        show "\<not> lt (h ! c) (h ! ((c - 1) div 2))"
        proof (cases "(c - 1) div 2 = i")
          case False
          with c show ?thesis by (intro exa) auto
        next
          case True
          show ?thesis
          proof (cases "c = j")
            case True
            with \<open>\<not> lt (h ! j) (h ! i)\<close> j show ?thesis by simp
          next
            case False
            with c True have "\<not> lt (h ! c) (h ! j)" by (intro sib) auto
            from swo_trans [OF swo this \<open>\<not> lt (h ! j) (h ! i)\<close>] True show ?thesis by simp
          qed
        qed
      qed
      with False \<open>\<not> 2 * i + 1 \<ge> n\<close> show ?thesis
        by (subst heap_down_loop.simps) (simp add: j_def Let_def)
    next
      case True
      have eq: "heap_down_loop lt h i n = heap_down_loop lt (heap_Swap h i j) j n"
        using True \<open>\<not> 2 * i + 1 \<ge> n\<close>
        by (subst heap_down_loop.simps) (simp add: j_def Let_def)
      let ?h = "heap_Swap h i j"
      have il: "i < length h" "j < length h" using j "1.prems" by auto
      have nth: "\<And>k. ?h ! k = (if k = j then h ! i else if k = i then h ! j else h ! k)"
        using il by (simp add: heap_Swap_nth)
      have "heap_except lt ?h n lo j"
        unfolding heap_except_def
      proof (intro conjI allI impI)
        fix c assume c: "0 < c \<and> c < n \<and> lo \<le> (c - 1) div 2 \<and> (c - 1) div 2 \<noteq> j"
        show "\<not> lt (?h ! c) (?h ! ((c - 1) div 2))"
        proof (cases "(c - 1) div 2 = i")
          case pi: True
          then have ci: "c \<noteq> i" using c by arith
          show ?thesis
          proof (cases "c = j")
            case True
            with pi j swo_asym [OF swo \<open>lt (h ! j) (h ! i)\<close>] show ?thesis
              by (simp add: nth)
          next
            case False
            with c pi have "\<not> lt (h ! c) (h ! j)" by (intro sib) auto
            with pi False ci j show ?thesis by (simp add: nth)
          qed
        next
          case npi: False
          show ?thesis
          proof (cases "c = i")
            case True
            with c have i0: "0 < i" by simp
            from True c have lo: "lo \<le> (i - 1) div 2" by simp
            have "(i - 1) div 2 < i" using i0 by arith
            then have pne: "(i - 1) div 2 \<noteq> i" "(i - 1) div 2 \<noteq> j" using j(1) by simp_all
            from exb [OF j(3) j(2) j(4) i0 lo] True pne j show ?thesis
              by (simp add: nth)
          next
            case False
            have cj: "c \<noteq> j" using npi j(4) by auto
            from c npi have "\<not> lt (h ! c) (h ! ((c - 1) div 2))" by (intro exa) auto
            with False cj npi c show ?thesis by (simp add: nth)
          qed
        qed
      next
        fix c assume c: "0 < c \<and> c < n \<and> (c - 1) div 2 = j \<and> 0 < j \<and> lo \<le> (j - 1) div 2"
        then have cj: "c \<noteq> j" "c \<noteq> i" using j(1) by arith+
        from c j(1) \<open>lo \<le> i\<close> have "\<not> lt (h ! c) (h ! ((c - 1) div 2))"
          by (intro exa) simp_all
        with c cj j show "\<not> lt (?h ! c) (?h ! ((j - 1) div 2))"
          by (simp add: nth)
      qed
      with "1.IH" [OF \<open>\<not> 2 * i + 1 \<ge> n\<close> j_def _ swo] True "1.prems" j
      have "heap_from lt (fst (heap_down_loop lt ?h j n)) n lo" by simp
      then show ?thesis unfolding eq .
    qed
  qed
qed


lemma heap_from_root_min:
  assumes swo: "strict_weak_order lt" and hp: "heap_from lt h n 0"
  shows "j < n \<Longrightarrow> \<not> lt (h ! j) (h ! 0)"
proof (induction j rule: less_induct)
  case (less j)
  show ?case
  proof (cases "j = 0")
    case True
    then show ?thesis by (simp add: swo_irrefl [OF swo])
  next
    case False
    then have p: "(j - 1) div 2 < j" by arith
    from False less.prems hp have "\<not> lt (h ! j) (h ! ((j - 1) div 2))"
      by (simp add: heap_from_def)
    moreover from p less.prems have "\<not> lt (h ! ((j - 1) div 2)) (h ! 0)"
      by (intro less.IH) simp_all
    ultimately show ?thesis by (rule swo_trans [OF swo])
  qed
qed

lemma heap_up_root: "heap_up lt h 0 = h"
  by (subst heap_up.simps) simp

lemma heap_down_fst: "fst (heap_down lt h i n) = fst (heap_down_loop lt h i n)"
  by (simp add: heap_down_def split: prod.splits)

lemma heap_except_root:
  "heap_from lt h n 0 \<Longrightarrow> heap_except lt (h[0 := b]) n 0 0"
  unfolding heap_from_def heap_except_def
proof (intro conjI allI impI)
  fix j assume hp: "\<forall>j. 0 < j \<and> j < n \<and> 0 \<le> (j - 1) div 2 \<longrightarrow> \<not> lt (h ! j) (h ! ((j - 1) div 2))"
    and j: "0 < j \<and> j < n \<and> 0 \<le> (j - 1) div 2 \<and> (j - 1) div 2 \<noteq> 0"
  then have "\<not> lt (h ! j) (h ! ((j - 1) div 2))" by simp
  with j show "\<not> lt (h[0 := b] ! j) (h[0 := b] ! ((j - 1) div 2))" by simp
next
  fix j :: nat assume "0 < j \<and> j < n \<and> (j - 1) div 2 = 0 \<and> (0::nat) < 0 \<and> 0 \<le> ((0::nat) - 1) div 2"
  then show "\<not> lt (h[0 := b] ! j) (h[0 := b] ! ((0 - 1) div 2))" by simp
qed

lemma heap_Fix_root:
  assumes swo: "strict_weak_order lt" and ex: "heap_except lt h (length h) 0 0"
  shows "heap_from lt (heap_Fix lt h 0) (length h) 0 \<and>
         length (heap_Fix lt h 0) = length h \<and> mset (heap_Fix lt h 0) = mset h"
proof -
  have eq: "heap_Fix lt h 0 = fst (heap_down_loop lt h 0 (length h))"
    by (simp add: heap_Fix_def heap_down_def heap_up_root split: prod.splits)
  show ?thesis
    unfolding eq
    using heap_down_loop_heap [OF swo _ _ ex] heap_down_loop_frame [of "length h" h lt 0]
    by simp
qed

lemma heap_Remove_root:
  assumes swo: "strict_weak_order lt" and ex: "heap_except lt h (length h) 0 0" and ne: "h \<noteq> []"
  shows "\<exists>h'. heap_Remove lt h 0 = Inr h' \<and> heap_from lt h' (length h') 0 \<and>
              length h' = length h - 1 \<and> mset h' + {#h ! 0#} = mset h"
proof (cases "length h - 1 = 0")
  case True
  with ne have "length h = 1" by (cases h) auto
  then obtain x where h: "h = [x]" by (cases h) auto
  show ?thesis by (simp add: h heap_Remove_def heap_from_def)
next
  case False
  define n where "n = length h - 1"
  define h1 where "h1 = heap_Swap h 0 n"
  define h2 where "h2 = fst (heap_down_loop lt h1 0 n)"
  have n: "0 < n" "n < length h" "length h = Suc n" using False ne by (auto simp: n_def)
  have rm: "heap_Remove lt h 0 = Inr (butlast h2)"
    using False ne
    by (simp add: heap_Remove_def Let_def heap_down_def heap_up_root h2_def h1_def n_def
        split: prod.splits)
  have nth1: "\<And>k. h1 ! k = (if k = n then h ! 0 else if k = 0 then h ! n else h ! k)"
    unfolding h1_def using n by (simp add: heap_Swap_nth)
  have len1: "length h1 = length h" by (simp add: h1_def)
  have ex1: "heap_except lt h1 n 0 0"
    unfolding heap_except_def
  proof (intro conjI allI impI)
    fix j assume j: "0 < j \<and> j < n \<and> 0 \<le> (j - 1) div 2 \<and> (j - 1) div 2 \<noteq> 0"
    then have "(j - 1) div 2 < n" by arith
    moreover from ex j n have "\<not> lt (h ! j) (h ! ((j - 1) div 2))"
      by (simp add: heap_except_def)
    ultimately show "\<not> lt (h1 ! j) (h1 ! ((j - 1) div 2))"
      using j by (simp add: nth1)
  next
    fix j :: nat assume "0 < j \<and> j < n \<and> (j - 1) div 2 = 0 \<and> (0::nat) < 0 \<and> 0 \<le> ((0::nat) - 1) div 2"
    then show "\<not> lt (h1 ! j) (h1 ! ((0 - 1) div 2))" by simp
  qed
  have fr: "length h2 = length h1" "mset h2 = mset h1"
    "\<forall>k. n \<le> k \<or> k < 0 \<longrightarrow> h2 ! k = h1 ! k"
    unfolding h2_def using heap_down_loop_frame [of n h1 lt 0] n len1 by simp_all
  have hp2: "heap_from lt h2 n 0"
    unfolding h2_def using n len1 by (intro heap_down_loop_heap [OF swo _ _ ex1]) simp_all
  have bl: "butlast h2 = take n h2" using fr len1 n by (simp add: butlast_conv_take)
  have last2: "h2 ! n = h ! 0" using fr(3) by (simp add: nth1)
  have l2: "length h2 = Suc n" using fr(1) len1 n by simp
  have "take (Suc n) h2 = take n h2 @ [h2 ! n]"
    using l2 by (intro take_Suc_conv_app_nth) simp
  then have "h2 = take n h2 @ [h ! 0]"
    using l2 last2 by simp
  then have "mset h2 = mset (take n h2 @ [h ! 0])" by simp
  then have "mset h2 = mset (take n h2) + {#h ! 0#}" by simp
  moreover have "mset h2 = mset h"
    using fr(2) n by (simp add: h1_def heap_Swap_mset)
  ultimately have ms: "mset (take n h2) + {#h ! 0#} = mset h" by simp
  have "heap_from lt (take n h2) n 0"
    using hp2 unfolding heap_from_def
  proof (intro allI impI)
    fix j assume a: "\<forall>j. 0 < j \<and> j < n \<and> 0 \<le> (j - 1) div 2 \<longrightarrow> \<not> lt (h2 ! j) (h2 ! ((j - 1) div 2))"
      and j: "0 < j \<and> j < n \<and> 0 \<le> (j - 1) div 2"
    then have "(j - 1) div 2 < n" by arith
    with a j show "\<not> lt (take n h2 ! j) (take n h2 ! ((j - 1) div 2))" by simp
  qed
  with rm bl ms fr len1 n show ?thesis by simp
qed

lemma heap_Init_loop_heap:
  assumes swo: "strict_weak_order lt"
  shows "heap_from lt h (length h) k \<Longrightarrow>
         heap_from lt (heap_Init_loop lt h k) (length h) 0 \<and>
         length (heap_Init_loop lt h k) = length h \<and>
         mset (heap_Init_loop lt h k) = mset h"
proof (induction k arbitrary: h)
  case 0
  then show ?case by simp
next
  case (Suc k)
  define h' where "h' = fst (heap_down_loop lt h k (length h))"
  have ex: "heap_except lt h (length h) k k"
    unfolding heap_except_def
  proof (intro conjI allI impI)
    fix j assume "0 < j \<and> j < length h \<and> k \<le> (j - 1) div 2 \<and> (j - 1) div 2 \<noteq> k"
    with Suc.prems show "\<not> lt (h ! j) (h ! ((j - 1) div 2))"
      by (simp add: heap_from_def)
  next
    fix j assume "0 < j \<and> j < length h \<and> (j - 1) div 2 = k \<and> 0 < k \<and> k \<le> (k - 1) div 2"
    then have False by arith
    then show "\<not> lt (h ! j) (h ! ((k - 1) div 2))" ..
  qed
  have fr: "length h' = length h" "mset h' = mset h"
    unfolding h'_def using heap_down_loop_frame [of "length h" h lt k] by simp_all
  have "heap_from lt h' (length h) k"
    unfolding h'_def by (intro heap_down_loop_heap [OF swo _ _ ex]) simp_all
  with Suc.IH [of h'] fr show ?case
    by (simp add: heap_down_fst h'_def)
qed

lemma heap_Init_heap:
  assumes swo: "strict_weak_order lt"
  shows "heap_from lt (heap_Init lt h) (length h) 0 \<and>
         length (heap_Init lt h) = length h \<and> mset (heap_Init lt h) = mset h"
proof -
  have "heap_from lt h (length h) (length h div 2)"
    unfolding heap_from_def
  proof (intro allI impI)
    fix j assume "0 < j \<and> j < length h \<and> length h div 2 \<le> (j - 1) div 2"
    then have False by arith
    then show "\<not> lt (h ! j) (h ! ((j - 1) div 2))" ..
  qed
  then show ?thesis
    unfolding heap_Init_def by (rule heap_Init_loop_heap [OF swo])
qed

section \<open>The merge reader delivers the sorted union\<close>

lemma FrameBuffer_Fill_unfold:
  assumes "rd (Reader f)
             (if frame_Len (Frame f) < frame_Cap (Frame f)
              then (Frame f)\<lparr>flen := length (rows (Frame f))\<rparr> else Frame f)
           = ((n, err), r', fr')"
  shows "FrameBuffer_Fill rd f =
           (case err of
              None \<Rightarrow> (f\<lparr>Frame := fr', Reader := r', Len := n, N := N f + 1, Off := 0\<rparr>,
                        if n = 0 then Some EOF else None)
            | Some EOF \<Rightarrow> (f\<lparr>Frame := fr', Reader := r', Len := n, N := N f + 1, Off := 0\<rparr>,
                            if n > 0 then None else Some EOF)
            | Some (Other e) \<Rightarrow> (f\<lparr>Frame := fr', Reader := r', Len := n, N := N f + 1\<rparr>,
                                 Some (Other e)))"
proof -
  have v: "(case frame_Slice (Frame f) 0 (frame_Cap (Frame f)) of Inr v \<Rightarrow> v | Inl p \<Rightarrow> Frame f)
           = (Frame f)\<lparr>flen := length (rows (Frame f))\<rparr>"
    by (simp add: frame_Slice_def frame_Cap_def)
  show ?thesis
    using assms unfolding FrameBuffer_Fill_def v
    by (cases err) (auto simp: Let_def split: error.splits)
qed

lemma FrameBuffer_Fill_contract:
  assumes rc: "reader_contract rd cont"
    and cap: "0 < frame_Cap (Frame b)" "frame_Len (Frame b) \<le> frame_Cap (Frame b)"
  shows "(\<exists>b'. FrameBuffer_Fill rd b = (b', None) \<and> buffer_ok b' \<and>
               buffer_rows cont b' = cont (Reader b) \<and> cont (Reader b) \<noteq> []) \<or>
         (\<exists>b'. FrameBuffer_Fill rd b = (b', Some EOF) \<and> cont (Reader b) = [])"
proof -
  define fr where "fr = (if frame_Len (Frame b) < frame_Cap (Frame b)
              then (Frame b)\<lparr>flen := length (rows (Frame b))\<rparr> else Frame b)"
  have fr: "flen fr = length (rows (Frame b))" "rows fr = rows (Frame b)"
    using cap by (auto simp: fr_def frame_Len_def frame_Cap_def)
  obtain n err r' fr' where rd: "rd (Reader b) fr = ((n, err), r', fr')"
    by (metis prod.exhaust)
  have wf: "flen fr \<le> length (rows fr)" using fr by simp
  from rc rd wf have c: "0 \<le> n" "n \<le> frame_Len fr" "nat n \<le> length (cont (Reader b))"
    "flen fr' = flen fr" "length (rows fr') = length (rows fr)"
    "take (nat n) (rows fr') = take (nat n) (cont (Reader b))"
    "cont r' = drop (nat n) (cont (Reader b))"
    "err = None \<longrightarrow> 0 < frame_Len fr \<longrightarrow> 0 < n"
    "err = Some EOF \<longrightarrow> cont r' = []"
    "\<forall>e. err \<noteq> Some (Other e)"
    unfolding reader_contract_def by blast+
  have fill: "FrameBuffer_Fill rd b =
           (case err of
              None \<Rightarrow> (b\<lparr>Frame := fr', Reader := r', Len := n, N := N b + 1, Off := 0\<rparr>,
                        if n = 0 then Some EOF else None)
            | Some EOF \<Rightarrow> (b\<lparr>Frame := fr', Reader := r', Len := n, N := N b + 1, Off := 0\<rparr>,
                            if n > 0 then None else Some EOF)
            | Some (Other e) \<Rightarrow> (b\<lparr>Frame := fr', Reader := r', Len := n, N := N b + 1\<rparr>,
                                 Some (Other e)))"
    using rd unfolding fr_def by (rule FrameBuffer_Fill_unfold)
  have errs: "err = None \<or> err = Some EOF"
    using c(10) by (cases err) (auto, metis error.exhaust)
  show ?thesis
  proof (cases "n = 0")
    case True
    with c(8) cap fr have "err \<noteq> None" by (auto simp: frame_Len_def frame_Cap_def)
    with errs have e: "err = Some EOF" by simp
    with c(9) c(7) True have "cont (Reader b) = []" by simp
    with e True fill show ?thesis by simp
  next
    case False
    with c(1) have n: "0 < n" by simp
    define b' where "b' = b\<lparr>Frame := fr', Reader := r', Len := n, N := N b + 1, Off := 0\<rparr>"
    have f: "FrameBuffer_Fill rd b = (b', None)"
      using errs n fill by (auto simp: b'_def)
    have ok: "buffer_ok b'"
      using n c(2) c(4) c(5) fr by (simp add: buffer_ok_def b'_def frame_Len_def frame_Cap_def)
    have "buffer_rows cont b' = take (nat n) (rows fr') @ cont r'"
      by (simp add: buffer_rows_def b'_def)
    also have "\<dots> = cont (Reader b)"
      using c(6) c(7) by simp
    finally have rows: "buffer_rows cont b' = cont (Reader b)" .
    have "cont (Reader b) \<noteq> []" using n c(3) by auto
    with f ok rows show ?thesis by blast
  qed
qed


lemma FrameBuffer_less_swo:
  "strict_weak_order sless \<Longrightarrow> strict_weak_order (FrameBuffer_less sless)"
  unfolding strict_weak_order_def FrameBuffer_less_def by blast

lemma buffer_rows_Cons:
  assumes "buffer_ok b"
  shows "buffer_rows cont b =
           rows (Frame b) ! nat (Off b)
           # take (nat (Len b - (Off b + 1))) (drop (nat (Off b + 1)) (rows (Frame b)))
           @ cont (Reader b)"
proof -
  from assms have o: "0 \<le> Off b" "Off b < Len b" "nat (Off b) < length (rows (Frame b))"
    by (auto simp: buffer_ok_def frame_Cap_def)
  have d: "drop (nat (Off b)) (rows (Frame b))
        = rows (Frame b) ! nat (Off b) # drop (Suc (nat (Off b))) (rows (Frame b))"
    using o(3) by (simp add: Cons_nth_drop_Suc)
  have k: "nat (Len b - Off b) = Suc (nat (Len b - (Off b + 1)))" using o by simp
  have s: "Suc (nat (Off b)) = nat (Off b + 1)" using o by simp
  show ?thesis
    unfolding buffer_rows_def d k by (simp add: s)
qed

lemma heap_rows_Nil [simp]: "heap_rows cont [] = {#}"
  by (simp add: heap_rows_def)

lemma heap_rows_Cons [simp]:
  "heap_rows cont (b # h) = mset (buffer_rows cont b) + heap_rows cont h"
  by (simp add: heap_rows_def)

lemma heap_rows_mset: "mset h' = mset h \<Longrightarrow> heap_rows cont h' = heap_rows cont h"
  by (simp add: heap_rows_def)

lemma heap_rows_add: "mset h' + {#b#} = mset h \<Longrightarrow>
   heap_rows cont h' + mset (buffer_rows cont b) = heap_rows cont h"
proof -
  assume "mset h' + {#b#} = mset h"
  then have "mset (b # h') = mset h" by simp
  then have "heap_rows cont (b # h') = heap_rows cont h" by (rule heap_rows_mset)
  then show ?thesis by (simp add: add.commute)
qed

lemma in_heap_rows:
  "y \<in># heap_rows cont h \<longleftrightarrow> (\<exists>b \<in> set h. y \<in> set (buffer_rows cont b))"
  by (induction h) auto

lemma list_all_mset: "mset h' = mset h \<Longrightarrow> list_all P h' = list_all P h"
  by (metis list_all_iff set_mset_mset)

lemma list_all_sub: "mset h' + {#b#} = mset h \<Longrightarrow> list_all P h \<Longrightarrow> list_all P h'"
proof -
  assume a: "mset h' + {#b#} = mset h" and p: "list_all P h"
  from a have "set h' \<subseteq> set h" by (metis mset_subset_eq_add_left set_mset_mono set_mset_mset)
  with p show ?thesis by (auto simp: list_all_iff)
qed

lemma heap_root_min:
  assumes swo: "strict_weak_order sless" and inv: "merge_inv sless cont h" and ne: "h \<noteq> []"
  shows "\<forall>y \<in># heap_rows cont h. \<not> sless y (rows (Frame (h ! 0)) ! nat (Off (h ! 0)))"
proof
  fix y assume "y \<in># heap_rows cont h"
  then obtain b where b: "b \<in> set h" "y \<in> set (buffer_rows cont b)"
    by (auto simp: in_heap_rows)
  then obtain j where j: "j < length h" "b = h ! j" by (auto simp: in_set_conv_nth)
  from inv have hp: "heap_from (FrameBuffer_less sless) h (length h) 0"
    and ok: "buffer_ok b" and so: "sorted_rows sless (buffer_rows cont b)"
    using b(1) by (auto simp: merge_inv_def list_all_iff)
  from heap_from_root_min [OF FrameBuffer_less_swo [OF swo] hp j(1)]
  have r: "\<not> sless (rows (Frame b) ! nat (Off b)) (rows (Frame (h ! 0)) ! nat (Off (h ! 0)))"
    by (simp add: FrameBuffer_less_def j(2))
  have "\<not> sless y (rows (Frame b) ! nat (Off b))"
  proof (cases "y = rows (Frame b) ! nat (Off b)")
    case True
    then show ?thesis by (simp add: swo_irrefl [OF swo])
  next
    case False
    with b(2) so show ?thesis
      unfolding buffer_rows_Cons [OF ok] sorted_rows_def by auto
  qed
  from swo_trans [OF swo this r]
  show "\<not> sless y (rows (Frame (h ! 0)) ! nat (Off (h ! 0)))" .
qed


lemma merge_inv_Fix:
  assumes swo: "strict_weak_order sless" and inv: "merge_inv sless cont (b0 # t)"
    and ok: "buffer_ok bn" and so: "sorted_rows sless (buffer_rows cont bn)"
    and rows: "buffer_rows cont b0 = x # buffer_rows cont bn"
  shows "merge_inv sless cont (heap_Fix (FrameBuffer_less sless) (bn # t) 0) \<and>
         heap_rows cont (b0 # t)
           = add_mset x (heap_rows cont (heap_Fix (FrameBuffer_less sless) (bn # t) 0)) \<and>
         length (heap_Fix (FrameBuffer_less sless) (bn # t) 0) = length (b0 # t)"
proof -
  let ?lt = "FrameBuffer_less sless"
  let ?h' = "heap_Fix ?lt (bn # t) 0"
  from inv have hp: "heap_from ?lt (b0 # t) (length (b0 # t)) 0"
    by (simp add: merge_inv_def)
  have "heap_except ?lt ((b0 # t)[0 := bn]) (length (b0 # t)) 0 0"
    using hp by (rule heap_except_root)
  then have ex: "heap_except ?lt (bn # t) (length (bn # t)) 0 0" by simp
  from heap_Fix_root [OF FrameBuffer_less_swo [OF swo] ex]
  have fx: "heap_from ?lt ?h' (length (bn # t)) 0" "length ?h' = length (bn # t)"
    "mset ?h' = mset (bn # t)" by simp_all
  have a1: "list_all buffer_ok ?h'"
    using inv ok by (simp add: list_all_mset [OF fx(3)] merge_inv_def)
  have a2: "list_all (\<lambda>b. sorted_rows sless (buffer_rows cont b)) ?h'"
    using inv so by (simp add: list_all_mset [OF fx(3)] merge_inv_def)
  have a3: "heap_rows cont (b0 # t) = add_mset x (heap_rows cont ?h')"
    by (simp add: heap_rows_mset [OF fx(3)] rows)
  from a1 a2 a3 fx show ?thesis by (simp add: merge_inv_def)
qed

lemma Read_step_inv:
  assumes swo: "strict_weak_order sless" and rc: "reader_contract rd cont"
    and inv: "merge_inv sless cont h" and ne: "h \<noteq> []"
    and n: "0 \<le> n" "n < frame_Cap out"
  shows "\<exists>h' x. Read_step rd sless h out n
                  = Inr (h', out\<lparr>rows := (rows out)[nat n := x]\<rparr>, n + 1, None) \<and>
               merge_inv sless cont h' \<and>
               heap_rows cont h = add_mset x (heap_rows cont h') \<and>
               (\<forall>y \<in># heap_rows cont h. \<not> sless y x) \<and>
               length h' \<le> length h"
proof -
  let ?lt = "FrameBuffer_less sless"
  from ne obtain b0 t where h: "h = b0 # t" by (cases h) auto
  define x where "x = rows (Frame b0) ! nat (Off b0)"
  define out' where "out' = out\<lparr>rows := (rows out)[nat n := x]\<rparr>"
  define b1 where "b1 = b0\<lparr>Off := Off b0 + 1\<rparr>"
  from inv h have ok0: "buffer_ok b0" and so0: "sorted_rows sless (buffer_rows cont b0)"
    by (simp_all add: merge_inv_def)
  from ok0 have o: "0 \<le> Off b0" "Off b0 < Len b0" "Len b0 \<le> frame_Cap (Frame b0)"
    "frame_Len (Frame b0) \<le> frame_Cap (Frame b0)"
    by (simp_all add: buffer_ok_def)
  have ci: "frame_CopyIndex (Frame (h ! 0)) (Off (h ! 0)) = Inr x"
    using o by (simp add: frame_CopyIndex_def h x_def)
  have si: "frame_SetIndex out x n = Inr out'"
    using n by (simp add: frame_SetIndex_def out'_def)
  have h1: "h[0 := (h ! 0)\<lparr>Off := Off (h ! 0) + 1\<rparr>] = b1 # t"
    by (simp add: h b1_def)
  have b1: "Off b1 = Off b0 + 1" "Len b1 = Len b0" "Frame b1 = Frame b0" "Reader b1 = Reader b0"
    by (simp_all add: b1_def)
  have rows0: "buffer_rows cont b0 = x # take (nat (Len b0 - (Off b0 + 1)))
        (drop (nat (Off b0 + 1)) (rows (Frame b0))) @ cont (Reader b0)"
    unfolding x_def by (rule buffer_rows_Cons [OF ok0])
  have min: "\<forall>y \<in># heap_rows cont h. \<not> sless y x"
    using heap_root_min [OF swo inv ne] by (simp add: h x_def)
  show ?thesis
  proof (cases "Off b0 + 1 = Len b0")
    case False
    have st: "Read_step rd sless h out n = Inr (heap_Fix ?lt (b1 # t) 0, out', n + 1, None)"
      using False by (simp add: Read_step_def ci si h1 b1 Let_def)
    have ok1: "buffer_ok b1" using o False by (simp add: buffer_ok_def b1)
    have r1: "buffer_rows cont b0 = x # buffer_rows cont b1"
      unfolding rows0 by (simp add: buffer_rows_def b1)
    have so1: "sorted_rows sless (buffer_rows cont b1)"
      using so0 unfolding r1 sorted_rows_def by simp
    from merge_inv_Fix [OF swo inv [unfolded h] ok1 so1 r1] st min
    show ?thesis unfolding out'_def h by auto
  next
    case True
    have cap: "0 < frame_Cap (Frame b1)" "frame_Len (Frame b1) \<le> frame_Cap (Frame b1)"
      using o by (simp_all add: b1)
    have r0: "buffer_rows cont b0 = x # cont (Reader b0)"
      unfolding rows0 using True by simp
    from FrameBuffer_Fill_contract [OF rc cap]
    show ?thesis
    proof (elim disjE exE conjE)
      fix b' assume f: "FrameBuffer_Fill rd b1 = (b', None)" and ok': "buffer_ok b'"
        and r': "buffer_rows cont b' = cont (Reader b1)"
      have st: "Read_step rd sless h out n = Inr (heap_Fix ?lt (b' # t) 0, out', n + 1, None)"
        using True f by (simp add: Read_step_def ci si h1 b1 Let_def)
      have r1: "buffer_rows cont b0 = x # buffer_rows cont b'"
        unfolding r0 r' by (simp add: b1)
      have so1: "sorted_rows sless (buffer_rows cont b')"
        using so0 unfolding r1 sorted_rows_def by simp
      from merge_inv_Fix [OF swo inv [unfolded h] ok' so1 r1] st min
      show ?thesis unfolding out'_def h by auto
    next
      fix b' assume f: "FrameBuffer_Fill rd b1 = (b', Some EOF)" and e: "cont (Reader b1) = []"
      from inv h have hp: "heap_from ?lt (b0 # t) (length (b0 # t)) 0"
        by (simp add: merge_inv_def)
      have "heap_except ?lt ((b0 # t)[0 := b']) (length (b0 # t)) 0 0"
        using hp by (rule heap_except_root)
      then have ex: "heap_except ?lt (b' # t) (length (b' # t)) 0 0" by simp
      from heap_Remove_root [OF FrameBuffer_less_swo [OF swo] ex]
      obtain h' where rm: "heap_Remove ?lt (b' # t) 0 = Inr h'"
        and hp': "heap_from ?lt h' (length h') 0"
        and len': "length h' = length (b' # t) - 1"
        and ms: "mset h' + {#(b' # t) ! 0#} = mset (b' # t)"
        by auto
      from ms have mst: "mset h' = mset t" by simp
      have st: "Read_step rd sless h out n = Inr (h', out', n + 1, None)"
        using True f rm by (simp add: Read_step_def ci si h1 b1 Let_def)
      have a1: "list_all buffer_ok h'"
        using inv h by (simp add: list_all_mset [OF mst] merge_inv_def)
      have a2: "list_all (\<lambda>b. sorted_rows sless (buffer_rows cont b)) h'"
        using inv h by (simp add: list_all_mset [OF mst] merge_inv_def)
      have a3: "heap_rows cont h = add_mset x (heap_rows cont h')"
        using e by (simp add: h heap_rows_mset [OF mst] r0 b1)
      from a1 a2 a3 hp' len' st min show ?thesis
        unfolding out'_def h by (auto simp: merge_inv_def)
    qed
  qed
qed


lemma Read_loop_inv:
  "strict_weak_order sless \<Longrightarrow> reader_contract rd cont \<Longrightarrow>
   merge_inv sless cont h \<Longrightarrow> 0 \<le> n \<Longrightarrow> n \<le> mx \<Longrightarrow> mx \<le> frame_Cap out \<Longrightarrow>
     \<exists>h' out' n'. Read_loop rd sless h out n mx = Inr (h', out', n', None) \<and>
        merge_inv sless cont h' \<and> n \<le> n' \<and> n' \<le> mx \<and> (n' = mx \<or> h' = []) \<and>
        (h \<noteq> [] \<and> n < mx \<longrightarrow> n < n') \<and>
        length (rows out') = length (rows out) \<and> flen out' = flen out \<and>
        take (nat n) (rows out') = take (nat n) (rows out) \<and>
        sorted_rows sless (emitted out' n n') \<and>
        mset (emitted out' n n') + heap_rows cont h' = heap_rows cont h \<and>
        (\<forall>x \<in> set (emitted out' n n'). \<forall>y \<in># heap_rows cont h'. \<not> sless y x)"
proof (induction rd sless h out n mx rule: Read_loop.induct)
  case (1 rd sless h out n mx)
  note swo = \<open>strict_weak_order sless\<close> and rc = \<open>reader_contract rd cont\<close>
  note inv = \<open>merge_inv sless cont h\<close>
  show ?case
  proof (cases "n < mx \<and> length h > 0")
    case False
    then have "Read_loop rd sless h out n mx = Inr (h, out, n, None)"
      by (subst Read_loop.simps) auto
    moreover from False "1.prems" have "n = mx \<or> h = []" by auto
    ultimately show ?thesis
      using inv "1.prems" by (auto simp: emitted_def sorted_rows_def)
  next
    case True
    then have ne: "h \<noteq> []" and nmx: "n < mx" by auto
    from nmx "1.prems" have ncap: "n < frame_Cap out" by simp
    from Read_step_inv [OF swo rc inv ne \<open>0 \<le> n\<close> ncap]
    obtain h1 x where
      st: "Read_step rd sless h out n = Inr (h1, out\<lparr>rows := (rows out)[nat n := x]\<rparr>, n + 1, None)"
      and inv1: "merge_inv sless cont h1"
      and rows1: "heap_rows cont h = add_mset x (heap_rows cont h1)"
      and min: "\<forall>y \<in># heap_rows cont h. \<not> sless y x"
      by blast
    define out1 where "out1 = out\<lparr>rows := (rows out)[nat n := x]\<rparr>"
    have eq: "Read_loop rd sless h out n mx = Read_loop rd sless h1 out1 (n + 1) mx"
      using True st by (subst Read_loop.simps) (simp add: out1_def)
    have cap1: "mx \<le> frame_Cap out1" using "1.prems" by (simp add: out1_def frame_Cap_def)
    from "1.IH" [OF True st [folded out1_def] refl refl refl refl swo rc inv1 _ _ cap1]
      nmx \<open>0 \<le> n\<close>
    obtain h' out' n' where
      lp: "Read_loop rd sless h1 out1 (n + 1) mx = Inr (h', out', n', None)"
      and inv': "merge_inv sless cont h'"
      and n': "n + 1 \<le> n'" "n' \<le> mx" "n' = mx \<or> h' = []"
      and len: "length (rows out') = length (rows out1)" "flen out' = flen out1"
      and tk: "take (nat (n + 1)) (rows out') = take (nat (n + 1)) (rows out1)"
      and so: "sorted_rows sless (emitted out' (n + 1) n')"
      and ms: "mset (emitted out' (n + 1) n') + heap_rows cont h' = heap_rows cont h1"
      and le: "\<forall>x \<in> set (emitted out' (n + 1) n'). \<forall>y \<in># heap_rows cont h'. \<not> sless y x"
      by auto
    have nl: "nat n < length (rows out)"
      using ncap \<open>0 \<le> n\<close> by (simp add: frame_Cap_def)
    have s1: "nat (n + 1) = Suc (nat n)" using \<open>0 \<le> n\<close> by simp
    have at_n: "rows out' ! nat n = x"
    proof -
      have "rows out' ! nat n = take (nat (n + 1)) (rows out') ! nat n" by (simp add: s1)
      also have "\<dots> = take (nat (n + 1)) (rows out1) ! nat n" by (simp only: tk)
      also have "\<dots> = x" using nl by (simp add: s1 out1_def)
      finally show ?thesis .
    qed
    have tk0: "take (nat n) (rows out') = take (nat n) (rows out)"
    proof -
      have "take (nat n) (rows out') = take (nat n) (take (nat (n + 1)) (rows out'))"
        by (simp add: s1 min_def)
      also have "\<dots> = take (nat n) (take (nat (n + 1)) (rows out1))" by (simp only: tk)
      also have "\<dots> = take (nat n) (rows out)" by (simp add: s1 min_def out1_def)
      finally show ?thesis .
    qed
    have em: "emitted out' n n' = x # emitted out' (n + 1) n'"
    proof -
      have l': "nat n < length (rows out')" using nl len by (simp add: out1_def)
      have "drop (nat n) (rows out') = rows out' ! nat n # drop (Suc (nat n)) (rows out')"
        using l' by (simp add: Cons_nth_drop_Suc)
      moreover have "nat (n' - n) = Suc (nat (n' - (n + 1)))" using n' by simp
      ultimately show ?thesis by (simp add: emitted_def at_n s1)
    qed
    have sub: "\<forall>y \<in> set (emitted out' (n + 1) n'). y \<in># heap_rows cont h1"
      using ms by (metis in_multiset_in_set union_iff)
    have sub': "\<forall>y \<in># heap_rows cont h'. y \<in># heap_rows cont h1"
      using ms by (metis union_iff)
    have min1: "\<forall>y \<in># heap_rows cont h1. \<not> sless y x"
      using min rows1 by simp
    have c1: "sorted_rows sless (emitted out' n n')"
      using so sub min1 by (simp add: em sorted_rows_def)
    have c2: "mset (emitted out' n n') + heap_rows cont h' = heap_rows cont h"
      using ms by (simp add: em rows1)
    have c3: "\<forall>x \<in> set (emitted out' n n'). \<forall>y \<in># heap_rows cont h'. \<not> sless y x"
      using le sub' min1 by (simp add: em)
    from lp inv' n' len tk0 c1 c2 c3 show ?thesis
      unfolding eq by (simp add: out1_def)
  qed
qed

lemma merge_inv_empty_rows:
  assumes "merge_inv sless cont h"
  shows "heap_rows cont h = {#} \<longleftrightarrow> h = []"
proof (cases h)
  case Nil
  then show ?thesis by simp
next
  case (Cons b t)
  with assms have "buffer_ok b" by (simp add: merge_inv_def)
  from buffer_rows_Cons [OF this, of cont] Cons show ?thesis by simp
qed

lemma mergeReader_Read_inv:
  assumes swo: "strict_weak_order sless" and rc: "reader_contract rd cont"
    and inv: "merge_inv sless cont (m_heap m)" and e0: "m_err m = None"
    and out: "0 < flen out" "flen out \<le> length (rows out)"
  shows "\<exists>n e m' out'. mergeReader_Read rd sless m out = Inr ((n, e), m', out') \<and>
           merge_inv sless cont (m_heap m') \<and> 0 \<le> n \<and>
           (if m_heap m = [] then n = 0 \<and> e = Some EOF else 0 < n \<and> e = None) \<and>
           m_err m' = e \<and> length (rows out') = length (rows out) \<and>
           sorted_rows sless (take (nat n) (rows out')) \<and>
           mset (take (nat n) (rows out')) + heap_rows cont (m_heap m') = heap_rows cont (m_heap m) \<and>
           (\<forall>x \<in> set (take (nat n) (rows out')). \<forall>y \<in># heap_rows cont (m_heap m'). \<not> sless y x)"
proof -
  have mx: "(0::int) \<le> frame_Len out" "frame_Len out \<le> frame_Cap out" "0 < frame_Len out"
    using out by (simp_all add: frame_Len_def frame_Cap_def)
  from Read_loop_inv [OF swo rc inv order_refl mx(1) mx(2)]
  obtain h' out' n' where
    lp: "Read_loop rd sless (m_heap m) out 0 (frame_Len out) = Inr (h', out', n', None)"
    and inv': "merge_inv sless cont h'"
    and n': "0 \<le> n'" "m_heap m \<noteq> [] \<and> 0 < frame_Len out \<longrightarrow> 0 < n'"
    and ln: "length (rows out') = length (rows out)"
    and so: "sorted_rows sless (emitted out' 0 n')"
    and ms: "mset (emitted out' 0 n') + heap_rows cont h' = heap_rows cont (m_heap m)"
    and le: "\<forall>x \<in> set (emitted out' 0 n'). \<forall>y \<in># heap_rows cont h'. \<not> sless y x"
    by blast
  have em: "emitted out' 0 n' = take (nat n') (rows out')" by (simp add: emitted_def)
  show ?thesis
  proof (cases "m_heap m = []")
    case True
    with ms have "emitted out' 0 n' = []" by simp
    moreover from True lp have "n' = 0"
      by (subst (asm) Read_loop.simps) simp
    ultimately show ?thesis
      using lp inv' e0 True ms ln by (simp add: mergeReader_Read_def sorted_rows_def)
  next
    case False
    with n' mx have "0 < n'" by simp
    with lp inv' e0 False so ms le ln show ?thesis
      by (simp add: mergeReader_Read_def em)
  qed
qed

lemma Read_all_inv:
  assumes swo: "strict_weak_order sless" and rc: "reader_contract rd cont"
  shows "merge_inv sless cont (m_heap m) \<Longrightarrow> m_err m = None \<Longrightarrow>
         \<forall>out \<in> set outs. 0 < flen out \<and> flen out \<le> length (rows out) \<Longrightarrow>
         size (heap_rows cont (m_heap m)) < length outs \<Longrightarrow>
         \<exists>xs m'. Read_all rd sless m outs = Inr (xs, Some EOF, m') \<and>
            sorted_rows sless xs \<and> mset xs = heap_rows cont (m_heap m)"
proof (induction outs arbitrary: m)
  case Nil
  then show ?case by simp
next
  case (Cons out outs)
  from Cons.prems(3) have out: "0 < flen out" "flen out \<le> length (rows out)" by simp_all
  from mergeReader_Read_inv [OF swo rc Cons.prems(1) Cons.prems(2) out]
  obtain n e m' out' where
    rd: "mergeReader_Read rd sless m out = Inr ((n, e), m', out')"
    and inv': "merge_inv sless cont (m_heap m')" and n0: "0 \<le> n"
    and cs: "if m_heap m = [] then n = 0 \<and> e = Some EOF else 0 < n \<and> e = None"
    and e': "m_err m' = e" and ln: "length (rows out') = length (rows out)"
    and so: "sorted_rows sless (take (nat n) (rows out'))"
    and ms: "mset (take (nat n) (rows out')) + heap_rows cont (m_heap m') = heap_rows cont (m_heap m)"
    and le: "\<forall>x \<in> set (take (nat n) (rows out')). \<forall>y \<in># heap_rows cont (m_heap m'). \<not> sless y x"
    by blast
  show ?case
  proof (cases "m_heap m = []")
    case True
    with cs have "n = 0" "e = Some EOF" by simp_all
    with rd True show ?thesis by (simp add: sorted_rows_def)
  next
    case False
    with cs have n: "0 < n" and e: "e = None" by simp_all
    define k where "k = size (mset (take (nat n) (rows out')))"
    have "k + size (heap_rows cont (m_heap m')) = size (heap_rows cont (m_heap m))"
      unfolding k_def using ms by (metis size_union)
    moreover have "0 < k"
    proof -
      from out have "rows out \<noteq> []" by auto
      with n ln show ?thesis by (simp add: k_def)
    qed
    ultimately have "size (heap_rows cont (m_heap m')) < length outs"
      using Cons.prems(4) by simp
    with Cons.IH [OF inv' _ _ this] e e' Cons.prems(3)
    obtain xs m'' where
      ra: "Read_all rd sless m' outs = Inr (xs, Some EOF, m'')"
      and sxs: "sorted_rows sless xs" and mxs: "mset xs = heap_rows cont (m_heap m')"
      by auto
    have "\<forall>x \<in> set (take (nat n) (rows out')). \<forall>y \<in> set xs. \<not> sless y x"
      using le mxs by (metis in_multiset_in_set)
    with so sxs have "sorted_rows sless (take (nat n) (rows out') @ xs)"
      by (auto simp: sorted_rows_def sorted_wrt_append)
    moreover have "mset (take (nat n) (rows out') @ xs) = heap_rows cont (m_heap m)"
      using ms mxs by simp
    ultimately show ?thesis
      using rd e ra by simp
  qed
qed

lemma new_buffer_Fill:
  assumes rc: "reader_contract rd cont" and sbs: "0 < sbs"
  shows "(cont r \<noteq> [] \<and> snd (FrameBuffer_Fill rd (new_buffer typ sbs r)) = None \<and>
          buffer_ok (filled_buffer rd typ sbs r) \<and>
          buffer_rows cont (filled_buffer rd typ sbs r) = cont r) \<or>
         (cont r = [] \<and> snd (FrameBuffer_Fill rd (new_buffer typ sbs r)) = Some EOF)"
proof -
  have cap: "0 < frame_Cap (Frame (new_buffer typ sbs r))"
    "frame_Len (Frame (new_buffer typ sbs r)) \<le> frame_Cap (Frame (new_buffer typ sbs r))"
    using sbs by (simp_all add: new_buffer_def frame_Make_def frame_Cap_def frame_Len_def)
  have rdr: "Reader (new_buffer typ sbs r) = r" by (simp add: new_buffer_def)
  from FrameBuffer_Fill_contract [OF rc cap] show ?thesis
    unfolding rdr filled_buffer_def by auto
qed

lemma NewMergeReader_loop_contract:
  assumes rc: "reader_contract rd cont" and sbs: "0 < sbs"
  shows "NewMergeReader_loop rd typ sbs readers bufs
           = Inr (bufs @ map (filled_buffer rd typ sbs) (filter (\<lambda>r. cont r \<noteq> []) readers))"
proof (induction readers arbitrary: bufs)
  case Nil
  then show ?case by simp
next
  case (Cons r readers)
  obtain b e where f: "FrameBuffer_Fill rd (new_buffer typ sbs r) = (b, e)"
    by (cases "FrameBuffer_Fill rd (new_buffer typ sbs r)")
  from new_buffer_Fill [OF rc sbs, of r "typ"] f
  have "(cont r \<noteq> [] \<and> e = None) \<or> (cont r = [] \<and> e = Some EOF)" by auto
  then show ?case
  proof
    assume a: "cont r \<noteq> [] \<and> e = None"
    with f Cons.IH [of "bufs @ [b]"] show ?thesis
      by (simp add: new_buffer_def [symmetric] filled_buffer_def)
  next
    assume a: "cont r = [] \<and> e = Some EOF"
    with f Cons.IH [of bufs] show ?thesis
      by (simp add: new_buffer_def [symmetric])
  qed
qed

lemma filled_buffers_inv:
  assumes rc: "reader_contract rd cont" and sbs: "0 < sbs"
  shows "list_all buffer_ok (map (filled_buffer rd typ sbs) (filter (\<lambda>r. cont r \<noteq> []) readers)) \<and>
         heap_rows cont (map (filled_buffer rd typ sbs) (filter (\<lambda>r. cont r \<noteq> []) readers))
           = mset (concat (map cont readers)) \<and>
         (list_all (\<lambda>r. sorted_rows sless (cont r)) readers \<longrightarrow>
            list_all (\<lambda>b. sorted_rows sless (buffer_rows cont b))
              (map (filled_buffer rd typ sbs) (filter (\<lambda>r. cont r \<noteq> []) readers)))"
proof (induction readers)
  case Nil
  then show ?case by simp
next
  case (Cons r readers)
  from new_buffer_Fill [OF rc sbs, of r "typ"] Cons show ?case by auto
qed

lemma NewMergeReader_merges:
  assumes swo: "strict_weak_order sless" and rc: "reader_contract rd cont"
    and srt: "list_all (\<lambda>r. sorted_rows sless (cont r)) readers"
    and sbs: "0 < sbs"
    and outs: "\<forall>out \<in> set outs. 0 < flen out \<and> flen out \<le> length (rows out)"
    and calls: "length (concat (map cont readers)) < length outs"
  shows "\<exists>m xs m'.
           NewMergeReader rd sless typ sbs readers = Inr m \<and>
           m_err m = None \<and>
           m_heap m = heap_Init (FrameBuffer_less sless)
                        (map (filled_buffer rd typ sbs)
                           (filter (\<lambda>r. cont r \<noteq> []) readers)) \<and>
           Read_all rd sless m outs = Inr (xs, Some EOF, m') \<and>
           sorted_rows sless xs \<and>
           mset xs = mset (concat (map cont readers))"
proof -
  let ?lt = "FrameBuffer_less sless"
  define bufs where
    "bufs = map (filled_buffer rd typ sbs) (filter (\<lambda>r. cont r \<noteq> []) readers)"
  define m where "m = \<lparr>m_err = (None :: 'c error option), m_heap = heap_Init ?lt bufs\<rparr>"
  have new: "NewMergeReader rd sless typ sbs readers = Inr m"
    by (simp add: NewMergeReader_def NewMergeReader_loop_contract [OF rc sbs] bufs_def m_def)
  from filled_buffers_inv [OF rc sbs, of "typ" readers sless] srt
  have b: "list_all buffer_ok bufs" "heap_rows cont bufs = mset (concat (map cont readers))"
    "list_all (\<lambda>b. sorted_rows sless (buffer_rows cont b)) bufs"
    by (simp_all add: bufs_def)
  from heap_Init_heap [OF FrameBuffer_less_swo [OF swo], of bufs]
  have hi: "heap_from ?lt (heap_Init ?lt bufs) (length bufs) 0"
    "length (heap_Init ?lt bufs) = length bufs" "mset (heap_Init ?lt bufs) = mset bufs"
    by simp_all
  have inv: "merge_inv sless cont (m_heap m)"
    using b hi by (simp add: merge_inv_def m_def list_all_mset [OF hi(3)])
  have rows: "heap_rows cont (m_heap m) = mset (concat (map cont readers))"
    using b(2) by (simp add: m_def heap_rows_mset [OF hi(3)])
  have "size (heap_rows cont (m_heap m)) < length outs"
    using calls by (simp only: rows size_mset)
  from Read_all_inv [OF swo rc inv _ outs this]
  obtain xs m' where "Read_all rd sless m outs = Inr (xs, Some EOF, m')"
    "sorted_rows sless xs" "mset xs = heap_rows cont (m_heap m)"
    by (auto simp: m_def)
  with new rows show ?thesis
    by (intro exI [of _ m] exI [of _ xs] exI [of _ m']) (simp add: m_def bufs_def)
qed

text \<open>
  Claim C2. Let the comparator be a strict weak order, let the readers keep the
  contract of a sequential reader and let the rows of each reader be in order.
  With a positive batch size \<open>NewMergeReader\<close> returns a merge reader and no error. Its
  heap is built, by \<^verbatim>\<open>heap.Init\<close>, over the filled buffers of exactly the readers that
  have a row to deliver, in their order: a reader that is empty at its first fill
  is dropped before. Read to its end through destination frames of positive length
  (one more of them than there are rows), the merge reader delivers rows in
  non-decreasing order, the multiset of the rows delivered is the union of the rows
  of all readers, and the reading ends with \<^verbatim>\<open>EOF\<close>.
\<close>

theorem NewMergeReader_sorted_union:
  assumes swo: "strict_weak_order sless" and rc: "reader_contract rd cont"
    and srt: "list_all (\<lambda>r. sorted_rows sless (cont r)) readers"
    and sbs: "0 < sbs"
    and outs: "\<forall>out \<in> set outs. 0 < flen out \<and> flen out \<le> length (rows out)"
    and calls: "length (concat (map cont readers)) < length outs"
  shows "\<exists>m xs m'.
           NewMergeReader rd sless typ sbs readers = Inr m \<and>
           m_err m = None \<and>
           m_heap m = heap_Init (FrameBuffer_less sless)
                        (map (filled_buffer rd typ sbs)
                           (filter (\<lambda>r. cont r \<noteq> []) readers)) \<and>
           Read_all rd sless m outs = Inr (xs, Some EOF, m') \<and>
           sorted_rows sless xs \<and>
           mset xs = mset (concat (map cont readers))"
  using swo rc srt sbs outs calls by (rule NewMergeReader_merges)

lemma list_Read_contract: "reader_contract list_Read (\<lambda>xs. xs)"
  unfolding reader_contract_def
proof (intro allI impI)
  fix r :: "'a list" and f :: "'a frame" and n :: int and err :: "'b error option"
    and r' :: "'a list" and f' :: "'a frame"
  assume a: "flen f \<le> length (rows f) \<and> list_Read r f = ((n, err), r', f')"
  show "0 \<le> n \<and> n \<le> frame_Len f \<and> nat n \<le> length r \<and>
        flen f' = flen f \<and> length (rows f') = length (rows f) \<and>
        take (nat n) (rows f') = take (nat n) r \<and>
        r' = drop (nat n) r \<and>
        (err = None \<longrightarrow> 0 < frame_Len f \<longrightarrow> 0 < n) \<and>
        (err = Some EOF \<longrightarrow> r' = []) \<and>
        (\<forall>e. err \<noteq> Some (Other e))"
  proof (cases "r = []")
    case True
    with a show ?thesis by (auto simp: list_Read_def frame_Len_def)
  next
    case False
    with a show ?thesis
      by (auto simp: list_Read_def frame_Len_def min_def)
  qed
qed

lemma int_less_swo: "strict_weak_order ((<) :: int \<Rightarrow> int \<Rightarrow> bool)"
  by (auto simp: strict_weak_order_def)

lemma sorted_rows_int: "sorted_rows ((<) :: int \<Rightarrow> int \<Rightarrow> bool) xs = sorted xs"
  by (simp add: sorted_rows_def not_less)

theorem NewMergeReader_sorted_union_witness:
  "\<exists>m m'. NewMergeReader list_Read (<) 0 2 [[1, 4], [2, 3], [], [2::int]] = Inr m \<and>
       length (m_heap m) = 3 \<and>
       Read_all list_Read (<) m
         (replicate 6 \<lparr>rows = [0, 0, 0], flen = 3\<rparr>)
         = Inr ([1, 2, 2, 3, 4], Some (EOF :: unit error), m')"
proof -
  have "\<exists>m xs m'.
           NewMergeReader list_Read (<) 0 2 [[1, 4], [2, 3], [], [2::int]] = Inr m \<and>
           m_err m = None \<and>
           m_heap m = heap_Init (FrameBuffer_less (<))
                        (map (filled_buffer (list_Read :: (int, int list, unit) Read) 0 2)
                           (filter (\<lambda>r. (\<lambda>xs. xs) r \<noteq> []) [[1, 4], [2, 3], [], [2::int]])) \<and>
           Read_all list_Read (<) m (replicate 6 \<lparr>rows = [0, 0, 0], flen = 3\<rparr>)
             = Inr (xs, Some (EOF :: unit error), m') \<and>
           sorted_rows (<) xs \<and>
           mset xs = mset (concat (map (\<lambda>xs. xs) [[1, 4], [2, 3], [], [2::int]]))"
    using NewMergeReader_sorted_union
      [OF int_less_swo list_Read_contract, of "[[1, 4], [2, 3], [], [2::int]]" 2
          "replicate 6 \<lparr>rows = [0, 0, 0], flen = 3\<rparr>" 0, where ?'c = unit]
    by (simp add: sorted_rows_int)
  then obtain m xs m' where
    m: "NewMergeReader list_Read (<) 0 2 [[1, 4], [2, 3], [], [2::int]] = Inr m"
    and hp: "m_heap m = heap_Init (FrameBuffer_less (<))
                        (map (filled_buffer (list_Read :: (int, int list, unit) Read) 0 2)
                           (filter (\<lambda>r. (\<lambda>xs. xs) r \<noteq> []) [[1, 4], [2, 3], [], [2::int]]))"
    and ra: "Read_all list_Read (<) m (replicate 6 \<lparr>rows = [0, 0, 0], flen = 3\<rparr>)
               = Inr (xs, Some (EOF :: unit error), m')"
    and s: "sorted_rows (<) xs"
    and ms: "mset xs = mset (concat (map (\<lambda>xs. xs) [[1, 4], [2, 3], [], [2::int]]))"
    by blast
  from s ms have "sort [1, 4, 2, 3, 2::int] = xs"
    by (intro properties_for_sort) (simp_all add: sorted_rows_int)
  then have xs: "xs = [1, 2, 2, 3, 4]" by simp
  have "length (m_heap m) = 3"
    unfolding hp by (simp add: heap_Init_heap [OF FrameBuffer_less_swo [OF int_less_swo]])
  with m ra xs show ?thesis by auto
qed

section \<open>The count that a read returns\<close>

lemma Read_step_dest:
  "Read_step rd sless h out n = Inr (h', out', n', e) \<Longrightarrow>
   0 \<le> n \<and> n < frame_Cap out \<and> n' = n + 1 \<and>
   out' = out\<lparr>rows := (rows out)[nat n := rows (Frame (h ! 0)) ! nat (Off (h ! 0))]\<rparr>"
  by (auto simp: Read_step_def frame_SetIndex_def frame_CopyIndex_def Let_def
      split: sum.splits if_splits prod.splits option.splits error.splits)

lemma Read_loop_dest:
  "Read_loop rd sless h out n mx = Inr (h', out', n', e) \<Longrightarrow> 0 \<le> n \<Longrightarrow>
   n \<le> n' \<and> length (rows out') = length (rows out) \<and> flen out' = flen out \<and>
   take (nat n) (rows out') = take (nat n) (rows out) \<and>
   drop (nat n') (rows out') = drop (nat n') (rows out) \<and>
   (n < n' \<longrightarrow> h \<noteq> [] \<and> nat n < length (rows out) \<and>
      rows out' ! nat n = rows (Frame (h ! 0)) ! nat (Off (h ! 0)))"
proof (induction rd sless h out n mx arbitrary: h' out' n' e rule: Read_loop.induct)
  case (1 rd sless h out n mx)
  show ?case
  proof (cases "n < mx \<and> length h > 0")
    case False
    with "1.prems" show ?thesis
      by (subst (asm) Read_loop.simps) auto
  next
    case True
    show ?thesis
    proof (cases "Read_step rd sless h out n")
      case (Inl p)
      with True "1.prems" show ?thesis
        by (subst (asm) Read_loop.simps) simp
    next
      case (Inr y)
      then obtain h1 out1 n1 e1 where st: "Read_step rd sless h out n = Inr (h1, out1, n1, e1)"
        by (cases y) auto
      define x where "x = rows (Frame (h ! 0)) ! nat (Off (h ! 0))"
      from Read_step_dest [OF st]
      have n1: "n1 = n + 1" and ncap: "n < frame_Cap out"
        and out1: "out1 = out\<lparr>rows := (rows out)[nat n := x]\<rparr>"
        by (simp_all add: x_def)
      have nl: "nat n < length (rows out)"
        using ncap \<open>0 \<le> n\<close> by (simp add: frame_Cap_def)
      have s1: "nat (n + 1) = Suc (nat n)" using \<open>0 \<le> n\<close> by simp
      from True have ne: "h \<noteq> []" by auto
      show ?thesis
      proof (cases e1)
        case (Some y)
        with True st "1.prems" have "h' = h1 \<and> out' = out1 \<and> n' = n1 \<and> e = Some y"
          by (subst (asm) Read_loop.simps) simp
        with n1 out1 nl ne s1 show ?thesis by (simp add: x_def)
      next
        case None
        with True st "1.prems" have lp: "Read_loop rd sless h1 out1 n1 mx = Inr (h', out', n', e)"
          by (subst (asm) Read_loop.simps) simp
        have "0 \<le> n1" using n1 \<open>0 \<le> n\<close> by simp
        from "1.IH" [OF True st refl refl refl None lp this]
        have b: "n + 1 \<le> n'" "length (rows out') = length (rows out1)" "flen out' = flen out1"
          "take (nat (n + 1)) (rows out') = take (nat (n + 1)) (rows out1)"
          "drop (nat n') (rows out') = drop (nat n') (rows out1)"
          by (simp_all add: n1)
        have at_n: "rows out' ! nat n = x"
        proof -
          have "rows out' ! nat n = take (nat (n + 1)) (rows out') ! nat n" by (simp add: s1)
          also have "\<dots> = take (nat (n + 1)) (rows out1) ! nat n" by (simp only: b(4))
          also have "\<dots> = x" using nl by (simp add: s1 out1)
          finally show ?thesis .
        qed
        have tk0: "take (nat n) (rows out') = take (nat n) (rows out)"
        proof -
          have "take (nat n) (rows out') = take (nat n) (take (nat (n + 1)) (rows out'))"
            by (simp add: s1 min_def)
          also have "\<dots> = take (nat n) (take (nat (n + 1)) (rows out1))" by (simp only: b(4))
          also have "\<dots> = take (nat n) (rows out)" by (simp add: s1 min_def out1)
          finally show ?thesis .
        qed
        have "nat n < nat n'" using b(1) \<open>0 \<le> n\<close> by simp
        then have dr: "drop (nat n') (rows out1) = drop (nat n') (rows out)"
          by (simp add: out1 drop_update_cancel)
        from b tk0 at_n dr nl ne show ?thesis
          by (simp add: out1 x_def)
      qed
    qed
  qed
qed

text \<open>
  Claim C7, as the code has it. The rows that a \<open>Read\<close> copies are read off the
  destination. When the readers keep the contract of a sequential reader and the
  heap is in the state of a merge, \<open>Read\<close> returns a count \<open>n\<close> within the length of
  the destination such that the first \<open>n\<close> rows of the destination after the call
  are exactly the rows that have left the heap during the call, as multisets, and
  the destination behind them is as it was before the call: the count returned is
  the number of rows copied. A call during which a refill fails with an error other
  than \<^verbatim>\<open>EOF\<close>, for any reader, returns the count \<open>0\<close>, although the row at the
  head of the heap has been copied to the first position of the destination. A
  call on a reader that has recorded an error returns \<open>0\<close> and leaves the destination
  as it was.
\<close>

theorem mergeReader_Read_count:
  "(strict_weak_order sless \<and> reader_contract rd cont \<and> merge_inv sless cont (m_heap m) \<and>
      flen out \<le> length (rows out) \<longrightarrow>
      (\<exists>n e m1 out1. mergeReader_Read rd sless m out = Inr ((n, e), m1, out1) \<and>
          0 \<le> n \<and> n \<le> frame_Len out \<and> length (rows out1) = length (rows out) \<and>
          mset (take (nat n) (rows out1)) + heap_rows cont (m_heap m1)
            = heap_rows cont (m_heap m) \<and>
          drop (nat n) (rows out1) = drop (nat n) (rows out))) \<and>
   (m_err m = None \<and> mergeReader_Read rd sless m out = Inr ((k, Some (Other x)), m', out') \<longrightarrow>
      k = 0 \<and> m_heap m \<noteq> [] \<and>
      rows out' ! 0 = rows (Frame (m_heap m ! 0)) ! nat (Off (m_heap m ! 0))) \<and>
   (m_err m \<noteq> None \<longrightarrow> mergeReader_Read rd sless m out = Inr ((0, m_err m), m, out))"
proof (rule conjI [OF impI conjI [OF impI impI]])
  assume a: "strict_weak_order sless \<and> reader_contract rd cont \<and>
    merge_inv sless cont (m_heap m) \<and> flen out \<le> length (rows out)"
  show "\<exists>n e m1 out1. mergeReader_Read rd sless m out = Inr ((n, e), m1, out1) \<and>
          0 \<le> n \<and> n \<le> frame_Len out \<and> length (rows out1) = length (rows out) \<and>
          mset (take (nat n) (rows out1)) + heap_rows cont (m_heap m1)
            = heap_rows cont (m_heap m) \<and>
          drop (nat n) (rows out1) = drop (nat n) (rows out)"
  proof (cases "m_err m = None")
    case False
    then show ?thesis
      by (simp add: mergeReader_Read_def frame_Len_def)
  next
    case True
    from a have swo: "strict_weak_order sless" and rc: "reader_contract rd cont"
      and inv: "merge_inv sless cont (m_heap m)" by simp_all
    have mx: "(0::int) \<le> frame_Len out" "frame_Len out \<le> frame_Cap out"
      using a by (simp_all add: frame_Len_def frame_Cap_def)
    from Read_loop_inv [OF swo rc inv order_refl mx]
    obtain h1 out1 n1 where
      lp: "Read_loop rd sless (m_heap m) out 0 (frame_Len out) = Inr (h1, out1, n1, None)"
      and n1: "0 \<le> n1" "n1 \<le> frame_Len out"
      and ln: "length (rows out1) = length (rows out)"
      and ms: "mset (emitted out1 0 n1) + heap_rows cont h1 = heap_rows cont (m_heap m)"
      by blast
    from Read_loop_dest [OF lp order_refl]
    have dr: "drop (nat n1) (rows out1) = drop (nat n1) (rows out)" by simp
    have em: "emitted out1 0 n1 = take (nat n1) (rows out1)" by (simp add: emitted_def)
    show ?thesis
    proof (cases "n1 = 0")
      case z: True
      with True lp n1 ln ms dr show ?thesis
        by (simp add: mergeReader_Read_def emitted_def)
    next
      case z: False
      with True lp n1 ln ms dr show ?thesis
        by (simp add: mergeReader_Read_def em)
    qed
  qed
next
  assume b: "m_err m = None \<and>
    mergeReader_Read rd sless m out = Inr ((k, Some (Other x)), m', out')"
  then have e0: "m_err m = None"
    and r: "mergeReader_Read rd sless m out = Inr ((k, Some (Other x)), m', out')" by simp_all
  show "k = 0 \<and> m_heap m \<noteq> [] \<and>
      rows out' ! 0 = rows (Frame (m_heap m ! 0)) ! nat (Off (m_heap m ! 0))"
  proof (cases "Read_loop rd sless (m_heap m) out 0 (frame_Len out)")
    case (Inl p)
    with e0 r show ?thesis by (simp add: mergeReader_Read_def)
  next
    case (Inr y)
    then obtain h1 out1 n1 e1 where
      lp: "Read_loop rd sless (m_heap m) out 0 (frame_Len out) = Inr (h1, out1, n1, e1)"
      by (cases y) auto
    show ?thesis
    proof (cases e1)
      case None
      with e0 r lp show ?thesis
        by (simp add: mergeReader_Read_def Let_def split: if_splits)
    next
      case (Some z)
      with e0 r lp have k: "k = 0" and o: "out' = out1"
        by (simp_all add: mergeReader_Read_def)
      from Read_loop_result [OF lp] Some have "0 < n1" by simp
      with Read_loop_dest [OF lp order_refl] k o show ?thesis by simp
    qed
  qed
next
  assume "m_err m \<noteq> None"
  then show "mergeReader_Read rd sless m out = Inr ((0, m_err m), m, out)"
    by (simp add: mergeReader_Read_def)
qed

lemma two_buffers_inv:
  "merge_inv (<) (\<lambda>xs. xs)
     [\<lparr>Frame = \<lparr>rows = [1, 4], flen = 2\<rparr>, Reader = [7::int], Off = 0, Len = 2, Index = 0, N = 1\<rparr>,
      \<lparr>Frame = \<lparr>rows = [2, 3], flen = 2\<rparr>, Reader = [], Off = 0, Len = 2, Index = 0, N = 1\<rparr>]"
  by (auto simp: merge_inv_def buffer_ok_def buffer_rows_def sorted_rows_def heap_from_def
      FrameBuffer_less_def frame_Cap_def frame_Len_def)

lemma two_buffers_Read:
  "mergeReader_Read list_Read (<)
     \<lparr>m_err = (None :: unit error option),
      m_heap = [\<lparr>Frame = \<lparr>rows = [1, 4], flen = 2\<rparr>, Reader = [7::int],
                 Off = 0, Len = 2, Index = 0, N = 1\<rparr>,
                \<lparr>Frame = \<lparr>rows = [2, 3], flen = 2\<rparr>, Reader = [],
                 Off = 0, Len = 2, Index = 0, N = 1\<rparr>]\<rparr>
     \<lparr>rows = [0, 0, 0, 0], flen = 3\<rparr>
   = Inr ((3, None),
          \<lparr>m_err = None,
           m_heap = [\<lparr>Frame = \<lparr>rows = [1, 4], flen = 2\<rparr>, Reader = [7],
                      Off = 1, Len = 2, Index = 0, N = 1\<rparr>]\<rparr>,
          \<lparr>rows = [1, 2, 3, 0], flen = 3\<rparr>)"
  by (simp add: mergeReader_Read_def Read_loop.simps Read_step_def list_Read_def
      FrameBuffer_Fill_def frame_Len_def frame_Cap_def frame_CopyIndex_def frame_SetIndex_def
      heap_Fix_def heap_Remove_def heap_Swap_def heap_down_def heap_down_loop.simps
      heap_up.simps FrameBuffer_less_def)

theorem mergeReader_Read_count_witness:
  "mergeReader_Read list_Read (<)
     \<lparr>m_err = (None :: unit error option),
      m_heap = [\<lparr>Frame = \<lparr>rows = [1, 4], flen = 2\<rparr>, Reader = [7::int],
                 Off = 0, Len = 2, Index = 0, N = 1\<rparr>,
                \<lparr>Frame = \<lparr>rows = [2, 3], flen = 2\<rparr>, Reader = [],
                 Off = 0, Len = 2, Index = 0, N = 1\<rparr>]\<rparr>
     \<lparr>rows = [0, 0, 0, 0], flen = 3\<rparr>
   = Inr ((3, None),
          \<lparr>m_err = None,
           m_heap = [\<lparr>Frame = \<lparr>rows = [1, 4], flen = 2\<rparr>, Reader = [7],
                      Off = 1, Len = 2, Index = 0, N = 1\<rparr>]\<rparr>,
          \<lparr>rows = [1, 2, 3, 0], flen = 3\<rparr>) \<and>
   mset (take (nat 3) [1, 2, 3, 0::int])
     + heap_rows (\<lambda>xs. xs)
         [\<lparr>Frame = \<lparr>rows = [1, 4], flen = 2\<rparr>, Reader = [7],
           Off = 1, Len = 2, Index = 0, N = 1\<rparr>]
   = heap_rows (\<lambda>xs. xs)
       [\<lparr>Frame = \<lparr>rows = [1, 4], flen = 2\<rparr>, Reader = [7::int],
         Off = 0, Len = 2, Index = 0, N = 1\<rparr>,
        \<lparr>Frame = \<lparr>rows = [2, 3], flen = 2\<rparr>, Reader = [],
         Off = 0, Len = 2, Index = 0, N = 1\<rparr>] \<and>
   drop (nat 3) [1, 2, 3, 0::int] = drop (nat 3) [0, 0, 0, 0] \<and>
   mergeReader_Read src_Read (<)
     \<lparr>m_err = None,
      m_heap = [\<lparr>Frame = \<lparr>rows = [1, 0], flen = 2\<rparr>, Reader = Src [] (Some ''disk''),
                 Off = 0, Len = 1, Index = 0, N = 1\<rparr>]\<rparr>
     \<lparr>rows = [0, 0::int], flen = 2\<rparr>
   = Inr ((0, Some (Other ''disk'')),
          \<lparr>m_err = Some (Other ''disk''),
           m_heap = [\<lparr>Frame = \<lparr>rows = [1, 0], flen = 2\<rparr>, Reader = Src [] (Some ''disk''),
                      Off = 1, Len = 0, Index = 0, N = 2\<rparr>]\<rparr>,
          \<lparr>rows = [1, 0], flen = 2\<rparr>) \<and>
   rows \<lparr>rows = [1, 0::int], flen = 2\<rparr> ! 0 = rows \<lparr>rows = [1, 0], flen = 2\<rparr> ! nat 0 \<and>
   mergeReader_Read src_Read (<)
     \<lparr>m_err = Some (Other ''disk''),
      m_heap = [\<lparr>Frame = \<lparr>rows = [1, 0], flen = 2\<rparr>, Reader = Src [] (Some ''disk''),
                 Off = 1, Len = 0, Index = 0, N = 2\<rparr>]\<rparr>
     \<lparr>rows = [7, 7::int], flen = 2\<rparr>
   = Inr ((0, Some (Other ''disk'')),
          \<lparr>m_err = Some (Other ''disk''),
           m_heap = [\<lparr>Frame = \<lparr>rows = [1, 0], flen = 2\<rparr>, Reader = Src [] (Some ''disk''),
                      Off = 1, Len = 0, Index = 0, N = 2\<rparr>]\<rparr>,
          \<lparr>rows = [7, 7], flen = 2\<rparr>)"
  using mergeReader_Read_count
    [of "(<)" list_Read "\<lambda>xs. xs"
        "\<lparr>m_err = (None :: unit error option),
          m_heap = [\<lparr>Frame = \<lparr>rows = [1, 4], flen = 2\<rparr>, Reader = [7::int],
                     Off = 0, Len = 2, Index = 0, N = 1\<rparr>,
                    \<lparr>Frame = \<lparr>rows = [2, 3], flen = 2\<rparr>, Reader = [],
                     Off = 0, Len = 2, Index = 0, N = 1\<rparr>]\<rparr>"
        "\<lparr>rows = [0, 0, 0, 0], flen = 3\<rparr>"]
    mergeReader_Read_count
    [of "(<)" src_Read _
        "\<lparr>m_err = None,
          m_heap = [\<lparr>Frame = \<lparr>rows = [1, 0], flen = 2\<rparr>, Reader = Src [] (Some ''disk''),
                     Off = 0, Len = 1, Index = 0, N = 1\<rparr>]\<rparr>"
        "\<lparr>rows = [0, 0::int], flen = 2\<rparr>" 0 "''disk''"
        "\<lparr>m_err = Some (Other ''disk''),
          m_heap = [\<lparr>Frame = \<lparr>rows = [1, 0], flen = 2\<rparr>, Reader = Src [] (Some ''disk''),
                     Off = 1, Len = 0, Index = 0, N = 2\<rparr>]\<rparr>"
        "\<lparr>rows = [1, 0], flen = 2\<rparr>"]
    mergeReader_Read_count
    [of "(<)" src_Read _
        "\<lparr>m_err = Some (Other ''disk''),
          m_heap = [\<lparr>Frame = \<lparr>rows = [1, 0], flen = 2\<rparr>, Reader = Src [] (Some ''disk''),
                     Off = 1, Len = 0, Index = 0, N = 2\<rparr>]\<rparr>"
        "\<lparr>rows = [7, 7::int], flen = 2\<rparr>"]
    int_less_swo list_Read_contract two_buffers_inv
  unfolding two_buffers_Read failing_reader_Read
  by (simp add: buffer_rows_def)

text \<open>
  The claim as stated has the count equal the rows copied on every call. A merge
  reader over one source that delivers the row \<open>1\<close> and then fails copies that row
  into the destination, which held \<open>0\<close> there, and returns the count \<open>0\<close> with the
  error.
\<close>

theorem mergeReader_Read_count_counterexample:
  "NewMergeReader src_Read (<) 0 2 [Src [1::int] (Some ''disk'')]
   = Inr \<lparr>m_err = None,
          m_heap = [\<lparr>Frame = \<lparr>rows = [1, 0], flen = 2\<rparr>, Reader = Src [] (Some ''disk''),
                     Off = 0, Len = 1, Index = 0, N = 1\<rparr>]\<rparr> \<and>
   mergeReader_Read src_Read (<)
     \<lparr>m_err = None,
      m_heap = [\<lparr>Frame = \<lparr>rows = [1, 0], flen = 2\<rparr>, Reader = Src [] (Some ''disk''),
                 Off = 0, Len = 1, Index = 0, N = 1\<rparr>]\<rparr>
     \<lparr>rows = [0, 0::int], flen = 2\<rparr>
   = Inr ((0, Some (Other ''disk'')),
          \<lparr>m_err = Some (Other ''disk''),
           m_heap = [\<lparr>Frame = \<lparr>rows = [1, 0], flen = 2\<rparr>, Reader = Src [] (Some ''disk''),
                      Off = 1, Len = 0, Index = 0, N = 2\<rparr>]\<rparr>,
          \<lparr>rows = [1, 0], flen = 2\<rparr>) \<and>
   \<lparr>rows = [1, 0], flen = 2\<rparr> \<noteq> \<lparr>rows = [0, 0::int], flen = 2\<rparr>"
  by (simp add: failing_reader_New failing_reader_Read)

section \<open>The sort delivers its input in order\<close>

lemma ReadFull_loop_contract:
  assumes rc: "reader_contract rd cont"
  shows "flen f \<le> length (rows f) \<Longrightarrow> 0 \<le> n \<Longrightarrow> n \<le> frame_Len f \<Longrightarrow>
    \<exists>n' err r' f'. ReadFull_loop rd r f n = Some (Inr ((n', err), r', f')) \<and>
       n \<le> n' \<and> n' \<le> frame_Len f \<and> flen f' = flen f \<and>
       length (rows f') = length (rows f) \<and>
       take (nat n') (rows f') = take (nat n) (rows f) @ take (nat (n' - n)) (cont r) \<and>
       cont r' = drop (nat (n' - n)) (cont r) \<and> nat (n' - n) \<le> length (cont r) \<and>
       (err = None \<or> err = Some EOF) \<and>
       (err = None \<longrightarrow> n' = frame_Len f) \<and>
       (err = Some EOF \<longrightarrow> cont r' = [])"
proof (induction "nat (frame_Len f - n)" arbitrary: r f n rule: less_induct)
  case less
  show ?case
  proof (cases "n < frame_Len f")
    case False
    with less.prems have "n = frame_Len f" by simp
    then show ?thesis
      by (subst ReadFull_loop.simps) simp
  next
    case True
    define v where "v = \<lparr>rows = drop (nat n) (rows f), flen = nat (frame_Len f - n)\<rparr>"
    have sl: "frame_Slice f n (frame_Len f) = Inr v"
      using True less.prems by (simp add: frame_Slice_def v_def frame_Len_def frame_Cap_def)
    have wfv: "flen v \<le> length (rows v)"
      using True less.prems by (simp add: v_def frame_Len_def)
    obtain m err r1 v1 where rd: "rd r v = ((m, err), r1, v1)"
      by (metis prod.exhaust)
    from rc wfv rd have c: "0 \<le> m" "m \<le> frame_Len v" "nat m \<le> length (cont r)"
      "flen v1 = flen v" "length (rows v1) = length (rows v)"
      "take (nat m) (rows v1) = take (nat m) (cont r)"
      "cont r1 = drop (nat m) (cont r)"
      "err = None \<longrightarrow> 0 < frame_Len v \<longrightarrow> 0 < m"
      "err = Some EOF \<longrightarrow> cont r1 = []"
      "\<forall>e. err \<noteq> Some (Other e)"
      unfolding reader_contract_def by blast+
    have errs: "err = None \<or> err = Some EOF"
      using c(10) by (cases err) (auto, metis error.exhaust)
    define f1 where "f1 = f\<lparr>rows := take (nat n) (rows f) @ rows v1\<rparr>"
    have lenv: "frame_Len v = frame_Len f - n"
      using True by (simp add: v_def frame_Len_def)
    have ncap: "nat n \<le> length (rows f)"
      using True less.prems by (simp add: frame_Len_def)
    have len1: "length (rows f1) = length (rows f)" "flen f1 = flen f"
      using c(5) ncap by (simp_all add: f1_def v_def)
    have tk1: "take (nat (n + m)) (rows f1) = take (nat n) (rows f) @ take (nat m) (cont r)"
      using c(1) c(6) ncap \<open>0 \<le> n\<close> by (simp add: f1_def nat_add_distrib)
    show ?thesis
    proof (cases "err = None")
      case False
      with errs have e: "err = Some EOF" by simp
      have "ReadFull_loop rd r f n = Some (Inr ((n + m, err), r1, f1))"
        using True sl rd e by (subst ReadFull_loop.simps) (simp add: f1_def)
      with c e len1 tk1 lenv show ?thesis by simp
    next
      case e: True
      with c(8) lenv True have m: "0 < m" by simp
      have eq: "ReadFull_loop rd r f n = ReadFull_loop rd r1 f1 (n + m)"
        using True sl rd e by (subst ReadFull_loop.simps) (simp add: f1_def)
      have ms: "nat (frame_Len f1 - (n + m)) < nat (frame_Len f - n)"
        using m True len1 by (simp add: frame_Len_def)
      have wf1: "flen f1 \<le> length (rows f1)" using len1 less.prems by simp
      have n1: "0 \<le> n + m" "n + m \<le> frame_Len f1"
        using less.prems c(1) c(2) lenv len1 by (simp_all add: frame_Len_def)
      have "\<exists>n' err r' f'. ReadFull_loop rd r1 f1 (n + m) = Some (Inr ((n', err), r', f')) \<and>
         n + m \<le> n' \<and> n' \<le> frame_Len f1 \<and> flen f' = flen f1 \<and>
         length (rows f') = length (rows f1) \<and>
         take (nat n') (rows f') = take (nat (n + m)) (rows f1) @ take (nat (n' - (n + m))) (cont r1) \<and>
         cont r' = drop (nat (n' - (n + m))) (cont r1) \<and> nat (n' - (n + m)) \<le> length (cont r1) \<and>
         (err = None \<or> err = Some EOF) \<and>
         (err = None \<longrightarrow> n' = frame_Len f1) \<and>
         (err = Some EOF \<longrightarrow> cont r' = [])"
        by (rule less.hyps [OF ms wf1 n1])
      then obtain n' err' r' f' where
        rf: "ReadFull_loop rd r1 f1 (n + m) = Some (Inr ((n', err'), r', f'))"
        and b: "n + m \<le> n'" "n' \<le> frame_Len f1" "flen f' = flen f1"
          "length (rows f') = length (rows f1)"
          "take (nat n') (rows f') = take (nat (n + m)) (rows f1) @ take (nat (n' - (n + m))) (cont r1)"
          "cont r' = drop (nat (n' - (n + m))) (cont r1)"
          "nat (n' - (n + m)) \<le> length (cont r1)"
          "err' = None \<or> err' = Some EOF"
          "err' = None \<longrightarrow> n' = frame_Len f1"
          "err' = Some EOF \<longrightarrow> cont r' = []"
        by blast
      have split: "nat (n' - n) = nat m + nat (n' - (n + m))"
        using b(1) c(1) by simp
      have t: "take (nat (n' - n)) (cont r)
           = take (nat m) (cont r) @ take (nat (n' - (n + m))) (cont r1)"
        unfolding split c(7) by (simp add: take_add)
      have d: "drop (nat (n' - n)) (cont r) = drop (nat (n' - (n + m))) (cont r1)"
        unfolding split c(7) by (simp add: add.commute)
      have l: "nat (n' - n) \<le> length (cont r)"
        using b(7) c(3) unfolding split c(7) by simp
      from rf b t d l tk1 len1 m show ?thesis
        unfolding eq by (simp add: frame_Len_def)
    qed
  qed
qed

lemma go_div_nonneg: "0 \<le> a \<Longrightarrow> 0 < b \<Longrightarrow> go_div a b = a div b"
  by (cases "a = 0") (simp_all add: go_div_def)

lemma go_div_le: "0 < b \<Longrightarrow> a \<le> L \<Longrightarrow> 0 \<le> L \<Longrightarrow> go_div a b \<le> L"
proof (cases "0 \<le> a")
  case True
  assume "0 < b" "a \<le> L"
  have "a div b \<le> a"
  proof (cases "a = 0")
    case True
    then show ?thesis by simp
  next
    case False
    with \<open>0 \<le> a\<close> have "0 < a" by simp
    then show ?thesis by (rule int_div_le_self)
  qed
  with True \<open>0 < b\<close> \<open>a \<le> L\<close> show ?thesis by (simp add: go_div_nonneg)
next
  case False
  assume "0 < b" "0 \<le> L"
  have "0 \<le> \<bar>a\<bar> div b" using \<open>0 < b\<close> by (simp add: pos_imp_zdiv_nonneg_iff)
  with False \<open>0 < b\<close> \<open>0 \<le> L\<close> show ?thesis by (simp add: go_div_def)
qed

lemma SortReader_resize_ok:
  assumes "0 < n" "n \<le> sz" "0 < sbs" "0 < flen f" "flen f \<le> length (rows f)"
    and lim: "sbs \<le> maxRows" "spillTarget \<le> int maxRows"
  shows "\<exists>f3. SortReader_resize maxRows sbs spillTarget typ f sz n = Inr f3 \<and>
              0 < flen f3 \<and> flen f3 \<le> length (rows f3)"
proof -
  define bytesPerRow where "bytesPerRow = go_div sz n"
  define targetRows0 where "targetRows0 = go_div spillTarget bytesPerRow"
  define targetRows where
    "targetRows = (if targetRows0 < int sbs then int sbs else targetRows0)"
  have bpr: "0 < bytesPerRow"
    using assms by (simp add: bytesPerRow_def go_div_nonneg pos_imp_zdiv_pos_iff)
  have tr: "0 < targetRows" using assms by (simp add: targetRows_def)
  have "targetRows0 \<le> int maxRows"
    unfolding targetRows0_def using bpr lim(2) by (intro go_div_le) simp_all
  with lim(1) have le: "targetRows \<le> int maxRows" by (simp add: targetRows_def)
  have un: "SortReader_resize maxRows sbs spillTarget typ f sz n =
      (if exceeds_5_percent (frame_Len f - targetRows) targetRows then
         (if targetRows \<le> frame_Cap f then frame_Slice f 0 targetRows
          else frame_Make_within maxRows typ targetRows)
       else Inr f)"
    using assms(1) bpr
    by (simp add: SortReader_resize_def Let_def bytesPerRow_def [symmetric]
        targetRows0_def [symmetric] targetRows_def [symmetric])
  show ?thesis
  proof (cases "exceeds_5_percent (frame_Len f - targetRows) targetRows")
    case False
    with un assms show ?thesis by simp
  next
    case True
    show ?thesis
    proof (cases "targetRows \<le> frame_Cap f")
      case c: True
      with True un tr show ?thesis
        by (simp add: frame_Slice_def frame_Cap_def)
    next
      case c: False
      with True un tr le show ?thesis
        by (simp add: frame_Make_within_def frame_Make_def)
    qed
  qed
qed

lemma SortReader_loop_contract:
  assumes sc: "sorter_contract c" and rc: "reader_contract (Reader_Read c) cont"
    and pc: "spiller_contract c cont runs" and sbs: "0 < SpillBatchSize c"
    and bp: "byte_per_row c"
    and lim: "SpillBatchSize c \<le> MaxRows c" "spillTarget \<le> int (MaxRows c)"
  shows "0 < flen f \<Longrightarrow> flen f \<le> length (rows f) \<Longrightarrow>
     \<exists>sp' new. SortReader_loop c spillTarget typ sp f r = Some (Inr (Inr sp')) \<and>
        runs sp' = runs sp @ new \<and>
        list_all (sorted_rows (Sorter_Less c)) new \<and>
        mset (concat new) = mset (cont r)"
proof (induction "length (cont r)" arbitrary: sp f r rule: less_induct)
  case less
  have fl: "(0::int) \<le> 0" "0 \<le> frame_Len f" by (simp_all add: frame_Len_def)
  from ReadFull_loop_contract [OF rc less.prems(2) fl, of r]
  obtain n err r' f1 where
    rf: "ReadFull (Reader_Read c) r f = Some (Inr ((n, err), r', f1))"
    and b: "0 \<le> n" "n \<le> frame_Len f" "flen f1 = flen f"
      "length (rows f1) = length (rows f)"
      "take (nat n) (rows f1) = take (nat n) (cont r)"
      "cont r' = drop (nat n) (cont r)" "nat n \<le> length (cont r)"
      "err = None \<or> err = Some EOF"
      "err = None \<longrightarrow> n = frame_Len f"
      "err = Some EOF \<longrightarrow> cont r' = []"
    unfolding ReadFull_def by auto
  define g where "g = \<lparr>rows = rows f1, flen = nat n\<rparr>"
  have ncap: "n \<le> frame_Cap f1"
    using b less.prems by (simp add: frame_Len_def frame_Cap_def)
  have sl: "frame_Slice f1 0 n = Inr g"
    using b(1) ncap by (simp add: frame_Slice_def g_def)
  define batch where "batch = Sorter_Sort c (take (nat n) (rows f1))"
  define g' where "g' = g\<lparr>rows := batch @ drop (nat n) (rows f1)\<rparr>"
  define f2 where "f2 = f1\<lparr>rows := rows g'\<rparr>"
  from sc have srt: "mset batch = mset (take (nat n) (cont r))"
    "sorted_rows (Sorter_Less c) batch"
    unfolding batch_def b(5) [symmetric] by (simp_all add: sorter_contract_def)
  have lb: "length batch = nat n"
  proof -
    have "length batch = size (mset batch)" by simp
    also have "\<dots> = length (take (nat n) (cont r))" by (simp only: srt(1) size_mset)
    also have "\<dots> = nat n" using b(7) by simp
    finally show ?thesis .
  qed
  have wfg: "flen g' \<le> length (rows g')"
    using ncap b(1) by (simp add: g'_def g_def lb frame_Cap_def)
  from pc wfg obtain sz sp1 where
    sp: "Spiller_Spill c sp g' = ((sz, None), sp1)"
      "runs sp1 = runs sp @ [take (flen g') (rows g')]"
    unfolding spiller_contract_def by blast
  from bp have "int (flen g') \<le> fst (fst (Spiller_Spill c sp g'))"
    unfolding byte_per_row_def by blast
  then have spsz: "int (flen g') \<le> sz" by (simp add: sp(1))
  have run: "take (flen g') (rows g') = batch"
    by (simp add: g'_def g_def lb)
  have notother: "\<And>e. err \<noteq> Some (Other e)" using b(8) by auto
  show ?case
  proof (cases "err = Some EOF")
    case True
    have lp: "SortReader_loop c spillTarget typ sp f r = Some (Inr (Inr sp1))"
      using rf sl sp(1) True
      by (subst SortReader_loop.simps)
        (simp add: Let_def g_def g'_def batch_def)
    from True b(10) b(6) b(7) have "take (nat n) (cont r) = cont r" by simp
    with srt have "mset (concat [batch]) = mset (cont r)" by simp
    with lp sp(2) run srt(2) show ?thesis
      by (intro exI [of _ sp1] exI [of _ "[batch]"]) simp
  next
    case False
    with b(8) have e: "err = None" by simp
    with b(9) have nf: "n = frame_Len f" by simp
    with less.prems have n0: "0 < n" by (simp add: frame_Len_def)
    have wf2: "0 < flen f2" "flen f2 \<le> length (rows f2)"
      using less.prems b(3) b(4) ncap b(1)
      by (simp_all add: f2_def g'_def g_def lb frame_Cap_def)
    have nsz: "n \<le> sz" using spsz b(1) by (simp add: g'_def g_def)
    from SortReader_resize_ok [OF n0 nsz sbs wf2 lim]
    obtain f3 where
      rs: "SortReader_resize (MaxRows c) (SpillBatchSize c) spillTarget typ f2 sz n = Inr f3"
      and wf3: "0 < flen f3" "flen f3 \<le> length (rows f3)" by blast
    have eq: "SortReader_loop c spillTarget typ sp f r
            = SortReader_loop c spillTarget typ sp1 f3 r'"
      using rf sl sp(1) e rs
      by (subst SortReader_loop.simps)
        (simp add: Let_def g_def g'_def batch_def f2_def)
    have "length (cont r') < length (cont r)"
      using b(6) b(7) n0 by simp
    from less.hyps [OF this wf3, of sp1]
    obtain sp' new where
      lp: "SortReader_loop c spillTarget typ sp1 f3 r' = Some (Inr (Inr sp'))"
      and rn: "runs sp' = runs sp1 @ new"
      and sn: "list_all (sorted_rows (Sorter_Less c)) new"
      and mn: "mset (concat new) = mset (cont r')" by blast
    have "mset (concat (batch # new))
            = mset (take (nat n) (cont r)) + mset (drop (nat n) (cont r))"
      using srt(1) mn b(6) by simp
    also have "\<dots> = mset (take (nat n) (cont r) @ drop (nat n) (cont r))"
      by (simp only: mset_append)
    also have "\<dots> = mset (cont r)" by (simp only: append_take_drop_id)
    finally have "mset (concat (batch # new)) = mset (cont r)" .
    with lp rn sn srt(2) sp(2) run show ?thesis
      unfolding eq by (intro exI [of _ sp'] exI [of _ "batch # new"]) simp
  qed
qed

text \<open>
  The sort is correct when every batch spills at one byte per row at least and the
  batches asked for can be allocated. Let the sorter's comparator be a strict weak
  order and its \<^verbatim>\<open>Sort\<close> sort a batch, let the readers keep the contract of a
  sequential reader, let the spiller keep its runs and let the batch size be
  positive. For a source with finitely many rows to deliver, \<open>SortReader\<close> then
  returns a reader and no error. Read to its end through destination frames of
  positive length (one more of them than there are rows), that reader delivers rows
  in non-decreasing order whose multiset is that of the rows of the source, and the
  reading ends with \<^verbatim>\<open>EOF\<close>.
\<close>

lemma SortReader_contract:
  assumes sc: "sorter_contract c" and rc: "reader_contract (Reader_Read c) cont"
    and pc: "spiller_contract c cont runs" and sbs: "0 < SpillBatchSize c"
    and bp: "byte_per_row c"
    and lim: "SpillBatchSize c \<le> MaxRows c" "spillTarget \<le> int (MaxRows c)"
    and outs: "\<forall>out \<in> set outs. 0 < flen out \<and> flen out \<le> length (rows out)"
    and calls: "length (cont r) < length outs"
  shows "\<exists>m xs m'.
           SortReader c spillTarget typ r = Some (Inr (Inr m)) \<and>
           Read_all (Reader_Read c) (Sorter_Less c) m outs = Inr (xs, Some EOF, m') \<and>
           sorted_rows (Sorter_Less c) xs \<and>
           mset xs = mset (cont r)"
proof -
  from pc obtain sp0 where sp0: "NewSpiller c = (sp0, None)" "runs sp0 = []"
    unfolding spiller_contract_def by blast
  have wf: "0 < flen (frame_Make typ (2 ^ 14))"
    "flen (frame_Make typ (2 ^ 14)) \<le> length (rows (frame_Make typ (2 ^ 14)))"
    by (simp_all add: frame_Make_def)
  from SortReader_loop_contract [OF sc rc pc sbs bp lim wf, of "typ" sp0 r]
  obtain sp' new where
    lp: "SortReader_loop c spillTarget typ sp0 (frame_Make typ (2 ^ 14)) r = Some (Inr (Inr sp'))"
    and rn: "runs sp' = runs sp0 @ new"
    and sn: "list_all (sorted_rows (Sorter_Less c)) new"
    and mn: "mset (concat new) = mset (cont r)" by blast
  from pc obtain rs where rs: "Spiller_Readers c sp' = (rs, None)" "map cont rs = runs sp'"
    unfolding spiller_contract_def by blast
  have new: "map cont rs = new" using rs(2) rn sp0(2) by simp
  have srt: "list_all (\<lambda>r. sorted_rows (Sorter_Less c) (cont r)) rs"
    using sn unfolding new [symmetric] by (simp add: list_all_iff)
  have "length (concat (map cont rs)) = size (mset (concat new))" by (simp add: new)
  also have "\<dots> = length (cont r)" by (simp only: mn size_mset)
  finally have calls': "length (concat (map cont rs)) < length outs" using calls by simp
  from sc have swo: "strict_weak_order (Sorter_Less c)" by (simp add: sorter_contract_def)
  from NewMergeReader_merges [OF swo rc srt sbs outs calls', of "typ"]
  obtain m xs m' where
    nm: "NewMergeReader (Reader_Read c) (Sorter_Less c) typ (SpillBatchSize c) rs = Inr m"
    and ra: "Read_all (Reader_Read c) (Sorter_Less c) m outs = Inr (xs, Some EOF, m')"
    and sx: "sorted_rows (Sorter_Less c) xs"
    and mx: "mset xs = mset (concat (map cont rs))" by blast
  have "SortReader c spillTarget typ r = Some (Inr (Inr m))"
    using lp by (simp add: SortReader_def sp0 rs nm)
  with ra sx mx mn new show ?thesis by auto
qed

lemma memory_sorter_contract: "sorter_contract memory_collaborators"
  by (simp add: sorter_contract_def memory_collaborators_def int_less_swo sorted_rows_int)

lemma memory_reader_contract:
  "reader_contract (Reader_Read memory_collaborators) (\<lambda>xs. xs)"
  by (simp add: memory_collaborators_def list_Read_contract)

lemma memory_spiller_contract:
  "spiller_contract memory_collaborators (\<lambda>xs. xs) (\<lambda>sp. sp)"
  by (simp add: spiller_contract_def memory_collaborators_def)

lemma memory_byte_per_row: "byte_per_row memory_collaborators"
  by (simp add: byte_per_row_def memory_collaborators_def)

lemma memory_SortReader:
  "\<exists>m m'. SortReader memory_collaborators 64 0 [5, 3, 1, 4, 2] = Some (Inr (Inr m)) \<and>
       Read_all list_Read (<) m (replicate 6 \<lparr>rows = [0, 0, 0], flen = 3\<rparr>)
         = Inr ([1, 2, 3, 4, 5], Some EOF, m')"
proof -
  have "\<exists>m xs m'.
           SortReader memory_collaborators 64 0 [5, 3, 1, 4, 2] = Some (Inr (Inr m)) \<and>
           Read_all (Reader_Read memory_collaborators) (Sorter_Less memory_collaborators) m
             (replicate 6 \<lparr>rows = [0, 0, 0], flen = 3\<rparr>) = Inr (xs, Some EOF, m') \<and>
           sorted_rows (Sorter_Less memory_collaborators) xs \<and>
           mset xs = mset ((\<lambda>xs. xs) [5, 3, 1, 4, 2])"
    by (rule SortReader_contract
          [OF memory_sorter_contract memory_reader_contract memory_spiller_contract _
              memory_byte_per_row])
      (simp_all add: memory_collaborators_def)
  then obtain m xs m' where
    m: "SortReader memory_collaborators 64 0 [5, 3, 1, 4, 2] = Some (Inr (Inr m))"
    and ra: "Read_all list_Read (<) m (replicate 6 \<lparr>rows = [0, 0, 0], flen = 3\<rparr>)
               = Inr (xs, Some EOF, m')"
    and s: "sorted_rows (<) xs" and ms: "mset xs = mset [5, 3, 1, 4, 2]"
    by (auto simp: memory_collaborators_def)
  from s ms have "sort [5, 3, 1, 4, 2::int] = xs"
    by (intro properties_for_sort) (simp_all add: sorted_rows_int)
  then have "xs = [1, 2, 3, 4, 5]" by simp
  with m ra show ?thesis by auto
qed

section \<open>The sort divides by its estimate of the bytes per row\<close>

lemma SortReader_loop_zero_estimate:
  assumes rc: "reader_contract (Reader_Read c) cont"
    and f: "0 < flen f" "flen f \<le> length (rows f)"
    and more: "flen f < length (cont r)"
    and sp: "\<And>sp g. \<exists>sz sp'. Spiller_Spill c sp g = ((sz, None), sp') \<and> 0 \<le> sz \<and>
                (0 < flen g \<longrightarrow> sz < int (flen g))"
  shows "SortReader_loop c spillTarget typ sp f r = Some (Inl DivideByZero)"
proof -
  have fl: "(0::int) \<le> 0" "0 \<le> frame_Len f" by (simp_all add: frame_Len_def)
  from ReadFull_loop_contract [OF rc f(2) fl, of r]
  obtain n err r' f1 where
    rf: "ReadFull (Reader_Read c) r f = Some (Inr ((n, err), r', f1))"
    and b: "0 \<le> n" "n \<le> frame_Len f" "flen f1 = flen f"
      "length (rows f1) = length (rows f)"
      "cont r' = drop (nat n) (cont r)"
      "err = None \<or> err = Some EOF"
      "err = None \<longrightarrow> n = frame_Len f"
      "err = Some EOF \<longrightarrow> cont r' = []"
    unfolding ReadFull_def by auto
  have "nat n < length (cont r)" using b(1) b(2) more by (simp add: frame_Len_def)
  then have "cont r' \<noteq> []" by (simp add: b(5))
  with b(6) b(8) have e: "err = None" by auto
  with b(7) have nf: "n = frame_Len f" by simp
  with f have n0: "0 < n" by (simp add: frame_Len_def)
  define g where "g = \<lparr>rows = rows f1, flen = nat n\<rparr>"
  have sl: "frame_Slice f1 0 n = Inr g"
    using b f nf by (simp add: frame_Slice_def g_def frame_Len_def frame_Cap_def)
  define g' where
    "g' = g\<lparr>rows := Sorter_Sort c (take (flen g) (rows g)) @ drop (flen g) (rows g)\<rparr>"
  have fg: "int (flen g') = n" using n0 by (simp add: g'_def g_def)
  from sp [of sp g'] obtain sz sp1 where
    s: "Spiller_Spill c sp g' = ((sz, None), sp1)" "0 \<le> sz" "0 < flen g' \<longrightarrow> sz < int (flen g')"
    by auto
  from s(3) n0 fg have "sz < n" by simp
  with s(2) n0 have "go_div sz n = 0" by (simp add: go_div_nonneg)
  with n0 have rs: "SortReader_resize (MaxRows c) (SpillBatchSize c) spillTarget typ
      (f1\<lparr>rows := rows g'\<rparr>) sz n = Inl DivideByZero"
    by (simp add: SortReader_resize_def)
  show ?thesis
    using rf sl s(1) e rs
    by (subst SortReader_loop.simps) (simp add: Let_def g'_def)
qed

lemma packed_contracts:
  "sorter_contract packed_collaborators \<and>
   reader_contract (Reader_Read packed_collaborators) (\<lambda>xs. xs) \<and>
   spiller_contract packed_collaborators (\<lambda>xs. xs) (\<lambda>sp. sp)"
  by (simp add: packed_collaborators_def memory_collaborators_def sorter_contract_def
      spiller_contract_def int_less_swo sorted_rows_int list_Read_contract)

text \<open>
  Claim C1. The sort is correct under the conditions of the lemma
  \<open>SortReader_contract\<close> above, but not for every source. Lines 50 and 51 divide
  the bytes spilled by the rows read and the spill target by that quotient, the
  estimate of the bytes per row, without a test of the quotient. A batch that is
  not the last and spills at fewer bytes than it has rows has the estimate zero:
  \<open>SortReader\<close> panics on the division and returns no reader. Here the source has
  16386 rows to deliver, two more than the first batch holds, and the spiller
  packs eight rows to the byte; sorter, reader and spiller keep their contracts.
\<close>

theorem SortReader_divides_by_zero:
  "SortReader packed_collaborators 1048576 0 (replicate 16384 1 @ [3, 2])
   = Some (Inl DivideByZero)"
proof -
  have rc: "reader_contract (Reader_Read packed_collaborators) (\<lambda>xs. xs)"
    by (simp add: packed_collaborators_def memory_collaborators_def list_Read_contract)
  have ns: "NewSpiller packed_collaborators = ([], None)"
    by (simp add: packed_collaborators_def memory_collaborators_def)
  have "SortReader_loop packed_collaborators 1048576 0 [] (frame_Make 0 (2 ^ 14))
          (replicate 16384 1 @ [3, 2]) = Some (Inl DivideByZero)"
  proof (rule SortReader_loop_zero_estimate [OF rc])
    show "0 < flen (frame_Make (0::int) (2 ^ 14))" by (simp add: frame_Make_def)
    show "flen (frame_Make (0::int) (2 ^ 14)) \<le> length (rows (frame_Make 0 (2 ^ 14)))"
      by (simp add: frame_Make_def)
    show "flen (frame_Make (0::int) (2 ^ 14)) < length (replicate 16384 (1::int) @ [3, 2])"
      by (simp add: frame_Make_def)
    show "\<exists>sz sp'. Spiller_Spill packed_collaborators sp g = ((sz, None), sp') \<and> 0 \<le> sz \<and>
                (0 < flen g \<longrightarrow> sz < int (flen g))" for sp g
      by (simp add: packed_collaborators_def memory_collaborators_def int_div_less_self
          pos_imp_zdiv_nonneg_iff)
  qed
  then show ?thesis
    by (simp add: SortReader_def ns)
qed

section \<open>Rounding to a floating-point number\<close>

lemma pow2_split: "(2::rat) powi (a + b) = 2 powi a * 2 powi b"
  by (rule power_int_add) simp

lemma f64_exponent_bounds:
  assumes "0 < x"
  shows "2 powi (f64_exponent x) \<le> x \<and> x < 2 powi (f64_exponent x + 1)"
proof -
  obtain p q where pq: "quotient_of x = (p, q)" by (cases "quotient_of x")
  then have q: "0 < q" by (rule quotient_of_denom_pos)
  from pq have x: "x = of_int p / of_int q" by (rule quotient_of_div)
  with assms q have p: "0 < p" by (simp add: zero_less_divide_iff)
  define bp where "bp = bitlen p"
  define bq where "bq = bitlen q"
  from bitlen_bounds [OF p] have bp: "2 ^ nat (bp - 1) \<le> p" "p < 2 ^ nat bp"
    by (simp_all add: bp_def)
  from bitlen_bounds [OF q] have bq: "2 ^ nat (bq - 1) \<le> q" "q < 2 ^ nat bq"
    by (simp_all add: bq_def)
  have bp1: "1 \<le> bp" using p by (simp add: bp_def bitlen_def floorlog_def)
  have bq1: "1 \<le> bq" using q by (simp add: bq_def bitlen_def floorlog_def)
  have P1: "(2::rat) powi (bp - 1) \<le> of_int p"
  proof -
    have "(2::rat) powi (bp - 1) = 2 ^ nat (bp - 1)"
      using bp1 by (metis diff_ge_0_iff_ge int_nat_eq power_int_of_nat)
    also have "\<dots> = of_int (2 ^ nat (bp - 1))" by simp
    also have "\<dots> \<le> of_int p" using bp(1) by (simp only: of_int_le_iff)
    finally show ?thesis .
  qed
  have P2: "of_int p < (2::rat) powi bp"
  proof -
    have "(of_int p :: rat) < of_int (2 ^ nat bp)" using bp(2) by (simp only: of_int_less_iff)
    also have "\<dots> = 2 ^ nat bp" by simp
    also have "\<dots> = 2 powi bp"
      using bp1 by (metis int_nat_eq power_int_of_nat zero_le_one order_trans)
    finally show ?thesis .
  qed
  have Q1: "(2::rat) powi (bq - 1) \<le> of_int q"
  proof -
    have "(2::rat) powi (bq - 1) = 2 ^ nat (bq - 1)"
      using bq1 by (metis diff_ge_0_iff_ge int_nat_eq power_int_of_nat)
    also have "\<dots> = of_int (2 ^ nat (bq - 1))" by simp
    also have "\<dots> \<le> of_int q" using bq(1) by (simp only: of_int_le_iff)
    finally show ?thesis .
  qed
  have Q2: "of_int q < (2::rat) powi bq"
  proof -
    have "(of_int q :: rat) < of_int (2 ^ nat bq)" using bq(2) by (simp only: of_int_less_iff)
    also have "\<dots> = 2 ^ nat bq" by simp
    also have "\<dots> = 2 powi bq"
      using bq1 by (metis int_nat_eq power_int_of_nat zero_le_one order_trans)
    finally show ?thesis .
  qed
  have qr: "(0::rat) < of_int q" using q by simp
  have up: "x < 2 powi (bp - bq + 1)"
  proof -
    have "x * of_int q = of_int p" using qr by (simp add: x)
    also have "\<dots> < 2 powi bp" by (rule P2)
    also have "\<dots> = 2 powi (bp - bq + 1) * 2 powi (bq - 1)"
      by (simp add: pow2_split [symmetric])
    also have "\<dots> \<le> 2 powi (bp - bq + 1) * of_int q"
      using Q1 by (intro mult_left_mono) simp_all
    finally show ?thesis using qr by simp
  qed
  have lo: "2 powi (bp - bq - 1) \<le> x"
  proof -
    have "2 powi (bp - bq - 1) * of_int q \<le> 2 powi (bp - bq - 1) * (2::rat) powi bq"
      using Q2 by (intro mult_left_mono) simp_all
    also have "\<dots> = 2 powi (bp - 1)"
      by (simp add: pow2_split [symmetric])
    also have "\<dots> \<le> of_int p" by (rule P1)
    also have "\<dots> = x * of_int q" using qr by (simp add: x)
    finally show ?thesis using qr by simp
  qed
  have ex: "f64_exponent x = (if 2 powi (bp - bq) \<le> x then bp - bq else bp - bq - 1)"
    by (simp add: f64_exponent_def pq bp_def bq_def Let_def)
  show ?thesis
  proof (cases "2 powi (bp - bq) \<le> x")
    case True
    with up ex show ?thesis by simp
  next
    case False
    with lo ex show ?thesis by simp
  qed
qed

lemma pow2_exponent_unique:
  assumes "(2::rat) powi e \<le> x" "x < 2 powi (e + 1)" "2 powi e' \<le> x" "x < 2 powi (e' + 1)"
  shows "e = e'"
proof (rule ccontr)
  assume "e \<noteq> e'"
  then consider "e + 1 \<le> e'" | "e' + 1 \<le> e" by linarith
  then show False
  proof cases
    case 1
    then have "(2::rat) powi (e + 1) \<le> 2 powi e'" by (intro power_int_increasing) simp_all
    with assms show False by simp
  next
    case 2
    then have "(2::rat) powi (e' + 1) \<le> 2 powi e" by (intro power_int_increasing) simp_all
    with assms show False by simp
  qed
qed

lemma f64_exponent_eq:
  assumes "(2::rat) powi e \<le> x" "x < 2 powi (e + 1)"
  shows "f64_exponent x = e"
proof -
  have "(0::rat) < 2 powi e" by simp
  from this assms(1) have "0 < x" by (rule less_le_trans)
  from f64_exponent_bounds [OF this] assms show ?thesis
    by (intro pow2_exponent_unique [of _ x]) simp_all
qed

lemma round_half_even_of_int: "round_half_even (of_int k) = k"
  by (simp add: round_half_even_def)

lemma round_half_even_le:
  assumes "m \<le> of_int K"
  shows "round_half_even m \<le> K"
proof (cases "m = of_int K")
  case True
  then show ?thesis by (simp add: round_half_even_of_int)
next
  case False
  with assms have "m < of_int K" by simp
  then have "\<lfloor>m\<rfloor> < K" by (simp add: floor_less_iff)
  then show ?thesis by (simp add: round_half_even_def Let_def)
qed

lemma round_half_even_ge:
  assumes "of_int K \<le> m"
  shows "K \<le> round_half_even m"
proof -
  from assms have "K \<le> \<lfloor>m\<rfloor>" by (simp add: le_floor_iff)
  then show ?thesis by (simp add: round_half_even_def Let_def)
qed

lemma f64_round_pos:
  assumes "(2::rat) powi e \<le> x" "x < 2 powi (e + 1)"
  shows "f64_round x = of_int (round_half_even (x / 2 powi (e - 52))) * 2 powi (e - 52)"
proof -
  have "(0::rat) < 2 powi e" by simp
  from this assms(1) have x: "0 < x" by (rule less_le_trans)
  from f64_exponent_eq [OF assms] x show ?thesis
    by (simp add: f64_round_def)
qed

lemma f64_round_neg: "f64_round (- x) = - f64_round x"
  by (simp add: f64_round_def sgn_minus)

lemma f64_round_nonneg:
  assumes "0 \<le> x"
  shows "0 \<le> f64_round x"
proof (cases "x = 0")
  case True
  then show ?thesis by (simp add: f64_round_def)
next
  case False
  with assms have x: "0 < x" by simp
  define u :: rat where "u = 2 powi (f64_exponent x - 52)"
  have u: "0 < u" by (simp add: u_def)
  have "of_int 0 \<le> x / u" using x u by simp
  then have "0 \<le> round_half_even (x / u)" by (rule round_half_even_ge)
  then have "(0::rat) \<le> of_int (round_half_even (x / u)) * u"
    using u by simp
  with x show ?thesis by (simp add: f64_round_def u_def)
qed

lemma f64_round_abs: "\<bar>f64_round x\<bar> = f64_round \<bar>x\<bar>"
proof (cases "0 \<le> x")
  case True
  with f64_round_nonneg [OF True] show ?thesis by simp
next
  case False
  then have "0 \<le> - x" by simp
  from f64_round_nonneg [OF this] have "f64_round x \<le> 0" by (simp add: f64_round_neg)
  with False show ?thesis by (simp add: f64_round_neg abs_if)
qed

lemma f64_round_lower:
  assumes "(2::rat) powi e \<le> x" "x < 2 powi (e + 1)"
  shows "2 powi e \<le> f64_round x"
proof -
  define u :: rat where "u = 2 powi (e - 52)"
  have u: "0 < u" by (simp add: u_def)
  have "e = 52 + (e - 52)" by arith
  then have "(2::rat) powi e = 2 powi (52 + (e - 52))" by (rule arg_cong)
  also have "\<dots> = 2 powi 52 * u" by (simp only: pow2_split u_def)
  also have "\<dots> = 2 ^ 52 * u" by simp
  finally have e: "(2::rat) powi e = 2 ^ 52 * u" .
  have "of_int (2 ^ 52) \<le> x / u" using assms(1) u by (simp add: e pos_le_divide_eq)
  then have "2 ^ 52 \<le> round_half_even (x / u)" by (rule round_half_even_ge)
  then have "(of_int (2 ^ 52) :: rat) \<le> of_int (round_half_even (x / u))"
    by (simp only: of_int_le_iff)
  then have "2 ^ 52 * u \<le> of_int (round_half_even (x / u)) * u"
    using u by (intro mult_right_mono) simp_all
  then show ?thesis
    unfolding f64_round_pos [OF assms] e u_def [symmetric] .
qed

lemma f64_round_upper:
  assumes "(2::rat) powi e \<le> x" "x < 2 powi (e + 1)"
  shows "f64_round x \<le> 2 powi (e + 1)"
proof -
  define u :: rat where "u = 2 powi (e - 52)"
  have u: "0 < u" by (simp add: u_def)
  have "e + 1 = 53 + (e - 52)" by arith
  then have "(2::rat) powi (e + 1) = 2 powi (53 + (e - 52))" by (simp only:)
  also have "\<dots> = 2 powi 53 * u" by (simp only: pow2_split u_def)
  also have "\<dots> = 2 ^ 53 * u" by simp
  finally have e: "(2::rat) powi (e + 1) = 2 ^ 53 * u" .
  have "x / u \<le> of_int (2 ^ 53)" using assms(2) u by (simp add: e pos_divide_le_eq)
  then have "round_half_even (x / u) \<le> 2 ^ 53" by (rule round_half_even_le)
  then have "(of_int (round_half_even (x / u)) :: rat) \<le> of_int (2 ^ 53)"
    by (simp only: of_int_le_iff)
  then have "of_int (round_half_even (x / u)) * u \<le> 2 ^ 53 * u"
    using u by (intro mult_right_mono) simp_all
  then show ?thesis
    unfolding f64_round_pos [OF assms] e u_def [symmetric] .
qed

lemma f64_round_bound: "f64_round (1 / 20) = 7205759403792794 / 2 ^ 57"
proof -
  have b: "(2::rat) powi (- 5) \<le> 1 / 20" "(1 / 20 :: rat) < 2 powi (- 5 + 1)"
    by (simp_all add: power_int_minus)
  have u: "(2::rat) powi (- 5 - 52) = 1 / 2 ^ 57" by (simp add: power_int_minus field_simps)
  have fl: "\<lfloor>(36028797018963968 / 5 :: rat)\<rfloor> = 7205759403792793"
    by (rule floor_unique) simp_all
  have r: "round_half_even ((1 / 20) / (1 / 2 ^ 57)) = 7205759403792794"
    by (simp add: round_half_even_def Let_def fl)
  show ?thesis
    unfolding f64_round_pos [OF b] u r by simp
qed

lemma pow2_less_imp: "(2::rat) powi a < 2 powi b \<Longrightarrow> a < b"
proof (rule ccontr)
  assume l: "(2::rat) powi a < 2 powi b" and "\<not> a < b"
  then have "b \<le> a" by simp
  then have "(2::rat) powi b \<le> 2 powi a" by (intro power_int_increasing) simp_all
  with l show False by simp
qed

lemma pow2_nat: "0 \<le> k \<Longrightarrow> (2::rat) powi k = of_int (2 ^ nat k)"
  by (simp add: power_int_def)

lemma f64_round_exact:
  assumes "(2::rat) powi e \<le> x" "x < 2 powi (e + 1)" "x = of_int k * 2 powi (e - 52)"
  shows "f64_round x = x"
proof -
  have "x / 2 powi (e - 52) = of_int k" using assms(3) by simp
  then show ?thesis
    unfolding f64_round_pos [OF assms(1,2)] using assms(3) by (simp add: round_half_even_of_int)
qed

lemma f64_round_of_pos_int:
  assumes "0 < a" "a < 2 ^ 53"
  shows "f64_round (of_int a) = of_int a"
proof -
  define x :: rat where "x = of_int a"
  have x: "0 < x" using assms by (simp add: x_def)
  define e where "e = f64_exponent x"
  from f64_exponent_bounds [OF x] have b: "2 powi e \<le> x" "x < 2 powi (e + 1)"
    by (simp_all add: e_def)
  have "x < of_int (2 ^ 53)" unfolding x_def using assms(2) by (simp only: of_int_less_iff)
  then have "x < 2 powi 53" by simp
  with b(1) have "(2::rat) powi e < 2 powi 53" by simp
  then have e1: "e < 53" by (rule pow2_less_imp)
  have "(1::rat) \<le> x" using assms by (simp add: x_def)
  with b(2) have "(2::rat) powi 0 < 2 powi (e + 1)" by simp
  then have e0: "0 < e + 1" by (rule pow2_less_imp)
  have "(2::rat) powi (52 - e) * 2 powi (e - 52) = 2 powi ((52 - e) + (e - 52))"
    by (simp only: pow2_split)
  also have "\<dots> = 1" by simp
  finally have one: "(2::rat) powi (52 - e) * 2 powi (e - 52) = 1" .
  have k: "(2::rat) powi (52 - e) = of_int (2 ^ nat (52 - e))"
    using e1 by (intro pow2_nat) simp
  have "x = x * ((2::rat) powi (52 - e) * 2 powi (e - 52))" by (simp only: one mult_1_right)
  also have "\<dots> = of_int (a * 2 ^ nat (52 - e)) * 2 powi (e - 52)"
    unfolding k x_def by simp
  finally have "x = of_int (a * 2 ^ nat (52 - e)) * 2 powi (e - 52)" .
  from f64_round_exact [OF b this] show ?thesis by (simp add: x_def)
qed

lemma f64_round_of_int:
  assumes "\<bar>a\<bar> < 2 ^ 53"
  shows "f64_round (of_int a) = of_int a"
proof -
  consider "a = 0" | "0 < a" | "a < 0" by linarith
  then show ?thesis
  proof cases
    case 1
    then show ?thesis by (simp add: f64_round_def)
  next
    case 2
    with assms show ?thesis by (intro f64_round_of_pos_int) simp_all
  next
    case 3
    with assms have "f64_round (of_int (- a)) = of_int (- a)"
      by (intro f64_round_of_pos_int) simp_all
    then show ?thesis by (simp add: f64_round_neg)
  qed
qed

lemma f64_round_small:
  assumes q: "0 < q" "q \<le> 1 / 20"
  shows "f64_round q \<le> 7205759403792794 / 2 ^ 57"
proof -
  define e where "e = f64_exponent q"
  from f64_exponent_bounds [OF q(1)] have b: "2 powi e \<le> q" "q < 2 powi (e + 1)"
    by (simp_all add: e_def)
  have "(1 / 20 :: rat) < 2 powi (- 4)" by (simp add: power_int_minus)
  with b(1) q(2) have "(2::rat) powi e < 2 powi (- 4)" by simp
  then have "e < - 4" by (rule pow2_less_imp)
  then consider "e = - 5" | "e + 1 \<le> - 5" by linarith
  then show ?thesis
  proof cases
    case 1
    have u: "(2::rat) powi (- 5 - 52) = 1 / 2 ^ 57"
      by (simp add: power_int_minus field_simps)
    have "q / (1 / 2 ^ 57) \<le> of_int 7205759403792794" using q(2) by simp
    then have "round_half_even (q / (1 / 2 ^ 57)) \<le> 7205759403792794"
      by (rule round_half_even_le)
    then have "(of_int (round_half_even (q / (1 / 2 ^ 57))) :: rat) \<le> of_int 7205759403792794"
      by (simp only: of_int_le_iff)
    then have "of_int (round_half_even (q / (1 / 2 ^ 57))) * (1 / 2 ^ 57)
        \<le> (of_int 7205759403792794 :: rat) * (1 / 2 ^ 57)"
      by (intro mult_right_mono) simp_all
    then show ?thesis
      using b unfolding 1 by (simp add: f64_round_pos [of "- 5" q] u)
  next
    case 2
    have "f64_round q \<le> 2 powi (e + 1)" using b by (rule f64_round_upper)
    also have "\<dots> \<le> 2 powi (- 5)" using 2 by (intro power_int_increasing) simp_all
    also have "\<dots> \<le> 7205759403792794 / 2 ^ 57" by (simp add: power_int_minus)
    finally show ?thesis .
  qed
qed

lemma f64_round_large:
  assumes q: "7205759403792795 / 2 ^ 57 \<le> q"
  shows "7205759403792794 / 2 ^ 57 < f64_round q"
proof -
  have q0: "0 < q" using q by (rule less_le_trans [rotated]) simp
  define e where "e = f64_exponent q"
  from f64_exponent_bounds [OF q0] have b: "2 powi e \<le> q" "q < 2 powi (e + 1)"
    by (simp_all add: e_def)
  have "(2::rat) powi (- 5) \<le> 7205759403792795 / 2 ^ 57" by (simp add: power_int_minus)
  with b(2) q have "(2::rat) powi (- 5) < 2 powi (e + 1)" by simp
  then have "- 5 < e + 1" by (rule pow2_less_imp)
  then consider "e = - 5" | "- 4 \<le> e" by linarith
  then show ?thesis
  proof cases
    case 1
    have u: "(2::rat) powi (- 5 - 52) = 1 / 2 ^ 57"
      by (simp add: power_int_minus field_simps)
    have "of_int 7205759403792795 \<le> q / (1 / 2 ^ 57)" using q by (simp add: field_simps)
    then have "7205759403792795 \<le> round_half_even (q / (1 / 2 ^ 57))"
      by (rule round_half_even_ge)
    then have "(of_int 7205759403792795 :: rat) \<le> of_int (round_half_even (q / (1 / 2 ^ 57)))"
      by (simp only: of_int_le_iff)
    then have "(of_int 7205759403792795 :: rat) * (1 / 2 ^ 57)
        \<le> of_int (round_half_even (q / (1 / 2 ^ 57))) * (1 / 2 ^ 57)"
      by (intro mult_right_mono) simp_all
    then show ?thesis
      using b unfolding 1 by (simp add: f64_round_pos [of "- 5" q] u)
  next
    case 2
    have "(7205759403792794 / 2 ^ 57 :: rat) < 2 powi (- 4)" by (simp add: power_int_minus)
    also have "\<dots> \<le> 2 powi e" using 2 by (intro power_int_increasing) simp_all
    also have "\<dots> \<le> f64_round q" using b by (rule f64_round_lower)
    finally show ?thesis .
  qed
qed

lemma exceeds_5_percent_iff:
  assumes b: "0 < b" "b < 2 ^ 52" and a: "\<bar>a\<bar> < 2 ^ 53"
  shows "exceeds_5_percent a b \<longleftrightarrow> b < 20 * \<bar>a\<bar>"
proof -
  define q :: rat where "q = of_int \<bar>a\<bar> / of_int b"
  have rb: "(0::rat) < of_int b" using b by simp
  have fb: "f64_round (of_int b) = of_int b" using b by (intro f64_round_of_int) simp
  have fa: "f64_round (of_int a) = of_int a" using a by (rule f64_round_of_int)
  have "\<bar>f64_round (of_int a / of_int b)\<bar> = f64_round \<bar>of_int a / of_int b\<bar>"
    by (rule f64_round_abs)
  also have "\<bar>of_int a / of_int b :: rat\<bar> = q" using rb by (simp add: q_def abs_divide)
  finally have ex: "exceeds_5_percent a b \<longleftrightarrow> 7205759403792794 / 2 ^ 57 < f64_round q"
    using b by (simp add: exceeds_5_percent_def fa fb f64_round_bound)
  show ?thesis
  proof (cases "b < 20 * \<bar>a\<bar>")
    case True
    then have "b + 1 \<le> 20 * \<bar>a\<bar>" by simp
    with b have "7205759403792795 * b \<le> \<bar>a\<bar> * 144115188075855872" by simp
    then have "(of_int (7205759403792795 * b) :: rat) \<le> of_int (\<bar>a\<bar> * 144115188075855872)"
      by (simp only: of_int_le_iff)
    then have "7205759403792795 / 2 ^ 57 \<le> q"
      using rb by (simp add: q_def field_simps)
    from f64_round_large [OF this] True ex show ?thesis by simp
  next
    case False
    show ?thesis
    proof (cases "a = 0")
      case True
      with ex False show ?thesis by (simp add: q_def f64_round_def)
    next
      case nz: False
      then have q0: "0 < q" using rb by (simp add: q_def)
      from False have "20 * \<bar>a\<bar> \<le> b" by simp
      then have "(of_int (20 * \<bar>a\<bar>) :: rat) \<le> of_int b" by (simp only: of_int_le_iff)
      then have "q \<le> 1 / 20" using rb by (simp add: q_def field_simps)
      from f64_round_small [OF q0 this] False ex show ?thesis by simp
    qed
  qed
qed

section \<open>The size of the next batch\<close>

lemma go_div_abs_le: "\<bar>go_div a b\<bar> \<le> \<bar>a\<bar>"
proof (cases "a = 0 \<or> b = 0")
  case True
  then show ?thesis by (auto simp: go_div_def)
next
  case False
  then have "0 < \<bar>a\<bar>" by simp
  then have "\<bar>a\<bar> div \<bar>b\<bar> \<le> \<bar>a\<bar>" by (rule int_div_le_self)
  moreover have "0 \<le> \<bar>a\<bar> div \<bar>b\<bar>" using False by (simp add: pos_imp_zdiv_nonneg_iff)
  ultimately show ?thesis
    using False by (simp add: go_div_def abs_mult)
qed

lemma SortReader_resize_cases:
  assumes st: "\<bar>spillTarget\<bar> < 2 ^ 52" and sbs: "int sbs < 2 ^ 52"
    and len: "frame_Len f < 2 ^ 52"
  shows "SortReader_resize maxRows sbs spillTarget typ f sz n =
     (if n = 0 \<or> go_div sz n = 0 then Inl DivideByZero
      else
        (let target = max (int sbs) (go_div spillTarget (go_div sz n))
         in if target < 20 * \<bar>frame_Len f - target\<bar> then
              (if target \<le> frame_Cap f then Inr (f\<lparr>flen := nat target\<rparr>)
               else if target \<le> int maxRows then Inr (frame_Make typ (nat target))
               else Inl MakeLenOutOfRange)
            else Inr f))"
proof (cases "n = 0 \<or> go_div sz n = 0")
  case True
  then show ?thesis by (auto simp: SortReader_resize_def)
next
  case False
  define t0 where "t0 = go_div spillTarget (go_div sz n)"
  define target where "target = max (int sbs) t0"
  have tg: "(if t0 < int sbs then int sbs else t0) = target"
    by (simp add: target_def max_def)
  have "\<bar>t0\<bar> \<le> \<bar>spillTarget\<bar>" unfolding t0_def by (rule go_div_abs_le)
  with st have "t0 < 2 ^ 52" by simp
  with sbs have hi: "target < 2 ^ 52" by (simp add: target_def)
  have lo: "0 \<le> target" by (simp add: target_def)
  have l0: "0 \<le> frame_Len f" by (simp add: frame_Len_def)
  have ex: "exceeds_5_percent (frame_Len f - target) target
              \<longleftrightarrow> target < 20 * \<bar>frame_Len f - target\<bar>"
  proof (cases "target = 0")
    case True
    then show ?thesis using l0 by (auto simp: exceeds_5_percent_def)
  next
    case f: False
    with lo have "0 < target" by simp
    moreover have "\<bar>frame_Len f - target\<bar> < 2 ^ 53" using lo hi l0 len by simp
    ultimately show ?thesis using hi by (intro exceeds_5_percent_iff)
  qed
  have sl: "target \<le> frame_Cap f \<Longrightarrow> frame_Slice f 0 target = Inr (f\<lparr>flen := nat target\<rparr>)"
    using lo by (simp add: frame_Slice_def)
  have mk: "frame_Make_within maxRows typ target =
      (if target \<le> int maxRows then Inr (frame_Make typ (nat target)) else Inl MakeLenOutOfRange)"
    using lo by (simp add: frame_Make_within_def)
  have "SortReader_resize maxRows sbs spillTarget typ f sz n =
      (if exceeds_5_percent (frame_Len f - target) target then
         (if target \<le> frame_Cap f then frame_Slice f 0 target
          else frame_Make_within maxRows typ target)
       else Inr f)"
    using False
    by (simp add: SortReader_resize_def Let_def t0_def [symmetric] tg)
  with False show ?thesis
    by (simp add: ex sl mk Let_def target_def [symmetric] t0_def [symmetric])
qed

text \<open>
  Claim C4, as the code has it. Let the spill target and the minimum batch size be
  below \<open>2 ^ 52\<close> in absolute value and the batch shorter than \<open>2 ^ 52\<close> rows: integers of
  that size are \<^verbatim>\<open>float64\<close> numbers, and the comparison of the rounded quotient with
  the rounded constant \<^verbatim>\<open>0.05\<close> is then the comparison of \<open>20 * \<bar>len - target\<bar>\<close> with
  \<open>target\<close>. After a batch of \<open>n\<close> rows spilled as \<open>sz\<close> bytes, lines 50 to 62 divide
  \<open>sz\<close> by \<open>n\<close> and the spill target by that quotient, both divisions truncating and
  panicking on a zero divisor, and raise the result to the minimum batch size: the
  target. The working batch is left as it is when its length is within 5% of the
  target, \<open>20 * \<bar>len - target\<bar> \<le> target\<close>. Otherwise it is resized: when the target
  is within the capacity, the new batch is the view of the old one with the target
  for its length, on the same storage, shorter or longer than the batch was; when
  not, it is a new batch with the target for its length and capacity, whose
  allocation panics beyond the rows that the machine can allocate.
\<close>

theorem SortReader_resize_5_percent:
  assumes "\<bar>spillTarget\<bar> < 2 ^ 52" and "int sbs < 2 ^ 52" and "frame_Len f < 2 ^ 52"
  shows "SortReader_resize maxRows sbs spillTarget typ f sz n =
     (if n = 0 \<or> go_div sz n = 0 then Inl DivideByZero
      else
        (let target = max (int sbs) (go_div spillTarget (go_div sz n))
         in if target < 20 * \<bar>frame_Len f - target\<bar> then
              (if target \<le> frame_Cap f then Inr (f\<lparr>flen := nat target\<rparr>)
               else if target \<le> int maxRows then Inr (frame_Make typ (nat target))
               else Inl MakeLenOutOfRange)
            else Inr f))"
  using assms by (rule SortReader_resize_cases)

theorem SortReader_resize_5_percent_witness:
  "SortReader_resize 1000 2 840 (0::int) \<lparr>rows = replicate 120 0, flen = 100\<rparr> 800 100
     = Inr \<lparr>rows = replicate 120 0, flen = 100\<rparr> \<and>
   SortReader_resize 1000 2 400 (0::int) \<lparr>rows = replicate 120 0, flen = 100\<rparr> 800 100
     = Inr \<lparr>rows = replicate 120 0, flen = 50\<rparr> \<and>
   SortReader_resize 1000 2 1600 (0::int) \<lparr>rows = replicate 120 0, flen = 100\<rparr> 800 100
     = Inr (frame_Make 0 200) \<and>
   SortReader_resize 1000 2 8 (0::int) \<lparr>rows = replicate 120 0, flen = 100\<rparr> 800 100
     = Inr \<lparr>rows = replicate 120 0, flen = 2\<rparr>"
  using SortReader_resize_5_percent
      [of 840 2 "\<lparr>rows = replicate 120 (0::int), flen = 100\<rparr>" 1000 0 800 100]
    SortReader_resize_5_percent
      [of 400 2 "\<lparr>rows = replicate 120 (0::int), flen = 100\<rparr>" 1000 0 800 100]
    SortReader_resize_5_percent
      [of 1600 2 "\<lparr>rows = replicate 120 (0::int), flen = 100\<rparr>" 1000 0 800 100]
    SortReader_resize_5_percent
      [of 8 2 "\<lparr>rows = replicate 120 (0::int), flen = 100\<rparr>" 1000 0 800 100]
  by (simp add: go_div_def frame_Len_def frame_Cap_def)

text \<open>
  The claim as stated has the view shrink the batch. With a spill target of 800000
  bytes, a first batch of \<open>2 ^ 14\<close> rows that spills at 100 bytes per row has the
  target 8000, and the view of 8000 rows is taken; a second batch, of these 8000
  rows, that spills at 80 bytes per row has the target 10000, within the capacity
  of \<open>2 ^ 14\<close> rows, and the view taken is longer than the batch was.
\<close>

theorem SortReader_resize_5_percent_counterexample:
  "SortReader_resize (2 ^ 30) 2 800000 (0::int) (frame_Make 0 (2 ^ 14)) 1638400 16384
     = Inr \<lparr>rows = replicate (2 ^ 14) 0, flen = 8000\<rparr> \<and>
   SortReader_resize (2 ^ 30) 2 800000 (0::int)
       \<lparr>rows = replicate (2 ^ 14) 0, flen = 8000\<rparr> 640000 8000
     = Inr \<lparr>rows = replicate (2 ^ 14) 0, flen = 10000\<rparr> \<and>
   flen \<lparr>rows = replicate (2 ^ 14) (0::int), flen = 8000\<rparr>
     < flen \<lparr>rows = replicate (2 ^ 14) (0::int), flen = 10000\<rparr>"
  using SortReader_resize_cases
      [of 800000 2 "frame_Make (0::int) (2 ^ 14)" "2 ^ 30" 0 1638400 16384]
    SortReader_resize_cases
      [of 800000 2 "\<lparr>rows = replicate (2 ^ 14) (0::int), flen = 8000\<rparr>" "2 ^ 30" 0 640000 8000]
  by (simp add: go_div_def frame_Len_def frame_Cap_def frame_Make_def)

section \<open>The sort allocates the batch of its estimate\<close>

lemma SortReader_loop_first_batch:
  assumes rc: "reader_contract (Reader_Read c) cont"
    and f: "0 < flen f" "flen f \<le> length (rows f)"
    and more: "flen f < length (cont r)"
    and sp: "\<And>sp g. snd (fst (Spiller_Spill c sp g)) = None"
    and ls: "\<And>xs. length (Sorter_Sort c xs) = length xs"
  shows "\<exists>f2 g sp1 r'. flen f2 = flen f \<and> length (rows f2) = length (rows f) \<and>
           flen g = flen f \<and>
           SortReader_loop c spillTarget typ sp f r =
             (case SortReader_resize (MaxRows c) (SpillBatchSize c) spillTarget typ f2
                     (fst (fst (Spiller_Spill c sp g))) (frame_Len f) of
                Inl p \<Rightarrow> Some (Inl p)
              | Inr f3 \<Rightarrow> SortReader_loop c spillTarget typ sp1 f3 r')"
proof -
  have fl: "(0::int) \<le> 0" "0 \<le> frame_Len f" by (simp_all add: frame_Len_def)
  from ReadFull_loop_contract [OF rc f(2) fl, of r]
  obtain n err r' f1 where
    rf: "ReadFull (Reader_Read c) r f = Some (Inr ((n, err), r', f1))"
    and b: "0 \<le> n" "n \<le> frame_Len f" "flen f1 = flen f"
      "length (rows f1) = length (rows f)"
      "cont r' = drop (nat n) (cont r)"
      "err = None \<or> err = Some EOF"
      "err = None \<longrightarrow> n = frame_Len f"
      "err = Some EOF \<longrightarrow> cont r' = []"
    unfolding ReadFull_def by auto
  have "nat n < length (cont r)" using b(1) b(2) more by (simp add: frame_Len_def)
  then have "cont r' \<noteq> []" by (simp add: b(5))
  with b(6) b(8) have e: "err = None" by auto
  with b(7) have nf: "n = frame_Len f" by simp
  define g where "g = \<lparr>rows = rows f1, flen = nat n\<rparr>"
  have sl: "frame_Slice f1 0 n = Inr g"
    using b f nf by (simp add: frame_Slice_def g_def frame_Len_def frame_Cap_def)
  define batch where "batch = Sorter_Sort c (take (flen g) (rows g))"
  define g' where "g' = g\<lparr>rows := batch @ drop (flen g) (rows g)\<rparr>"
  define f2 where "f2 = f1\<lparr>rows := rows g'\<rparr>"
  obtain sz e1 sp1 where s: "Spiller_Spill c sp g' = ((sz, e1), sp1)"
    by (metis prod.exhaust)
  with sp [of sp g'] have s': "Spiller_Spill c sp g' = ((sz, None), sp1)" by simp
  have eq: "SortReader_loop c spillTarget typ sp f r =
      (case SortReader_resize (MaxRows c) (SpillBatchSize c) spillTarget typ f2 sz n of
         Inl p \<Rightarrow> Some (Inl p)
       | Inr f3 \<Rightarrow> SortReader_loop c spillTarget typ sp1 f3 r')"
    using rf sl s' e
    by (subst SortReader_loop.simps) (simp add: Let_def g'_def f2_def batch_def)
  have a1: "flen g' = flen f" using nf by (simp add: g'_def g_def frame_Len_def)
  have a2: "flen f2 = flen f" by (simp add: f2_def b(3))
  have "nat n \<le> length (rows f1)" using nf f b(4) by (simp add: frame_Len_def)
  then have a3: "length (rows f2) = length (rows f)"
    by (simp add: f2_def g'_def g_def batch_def ls b(4))
  from a1 a2 a3 eq s' nf show ?thesis
    by (intro exI [of _ f2] exI [of _ g'] exI [of _ sp1] exI [of _ r']) simp
qed

text \<open>
  The target of rows is not bounded by what the machine can allocate. With eight
  bytes per row and a spill target of \<open>2 ^ 40\<close> bytes the target is \<open>2 ^ 37\<close> rows,
  beyond the capacity of the first batch and beyond the \<open>2 ^ 30\<close> rows of the machine
  here: the allocation of line 60 panics.
\<close>

lemma memory_SortReader_beyond_limit:
  "SortReader memory_collaborators (2 ^ 40) 0 (replicate 16384 1 @ [3, 2])
   = Some (Inl MakeLenOutOfRange)"
proof -
  have rc: "reader_contract (Reader_Read memory_collaborators) (\<lambda>xs. xs)"
    by (simp add: memory_collaborators_def list_Read_contract)
  have ns: "NewSpiller memory_collaborators = ([], None)"
    by (simp add: memory_collaborators_def)
  have "\<exists>f2 g sp1 r'. flen f2 = flen (frame_Make (0::int) (2 ^ 14)) \<and>
           length (rows f2) = length (rows (frame_Make (0::int) (2 ^ 14))) \<and>
           flen g = flen (frame_Make (0::int) (2 ^ 14)) \<and>
           SortReader_loop memory_collaborators (2 ^ 40) 0 [] (frame_Make 0 (2 ^ 14))
               (replicate 16384 1 @ [3, 2]) =
             (case SortReader_resize (MaxRows memory_collaborators)
                     (SpillBatchSize memory_collaborators) (2 ^ 40) 0 f2
                     (fst (fst (Spiller_Spill memory_collaborators [] g)))
                     (frame_Len (frame_Make (0::int) (2 ^ 14))) of
                Inl p \<Rightarrow> Some (Inl p)
              | Inr f3 \<Rightarrow> SortReader_loop memory_collaborators (2 ^ 40) 0 sp1 f3 r')"
    by (rule SortReader_loop_first_batch [OF rc])
      (simp_all add: frame_Make_def memory_collaborators_def)
  then obtain f2 g sp1 r' where
    f2: "flen f2 = 2 ^ 14" "length (rows f2) = 2 ^ 14" and g: "flen g = 2 ^ 14"
    and lp: "SortReader_loop memory_collaborators (2 ^ 40) 0 [] (frame_Make 0 (2 ^ 14))
               (replicate 16384 1 @ [3, 2]) =
             (case SortReader_resize (MaxRows memory_collaborators)
                     (SpillBatchSize memory_collaborators) (2 ^ 40) 0 f2
                     (fst (fst (Spiller_Spill memory_collaborators [] g)))
                     (frame_Len (frame_Make (0::int) (2 ^ 14))) of
                Inl p \<Rightarrow> Some (Inl p)
              | Inr f3 \<Rightarrow> SortReader_loop memory_collaborators (2 ^ 40) 0 sp1 f3 r')"
    by (auto simp: frame_Make_def)
  have "SortReader_resize (2 ^ 30) 2 (2 ^ 40) 0 f2 (8 * 2 ^ 14) (2 ^ 14) = Inl MakeLenOutOfRange"
    using SortReader_resize_cases [of "2 ^ 40" 2 f2 "2 ^ 30" 0 "8 * 2 ^ 14" "2 ^ 14"] f2
    by (simp add: go_div_def frame_Len_def frame_Cap_def)
  then have "SortReader_loop memory_collaborators (2 ^ 40) 0 [] (frame_Make 0 (2 ^ 14))
               (replicate 16384 1 @ [3, 2]) = Some (Inl MakeLenOutOfRange)"
    unfolding lp using g by (simp add: memory_collaborators_def frame_Len_def frame_Make_def)
  then show ?thesis
    by (simp add: SortReader_def ns)
qed

end
